theory Spec2Isabelle
  imports Main
begin

section \<open>The testimonial carousel of main.js (initLineRevealTestimonials)\<close>

text \<open>
  The carousel controller lives in one closure per wrap element: the local variables
  \<open>activeIndex\<close>, \<open>isAnimating\<close>, \<open>reduceMotion\<close>, \<open>autoplayCall\<close>, \<open>isInView\<close>, the
  constants \<open>autoplayEnabled\<close>, \<open>autoplayDuration\<close>, \<open>slides\<close>, and the DOM elements it
  writes to. The model keeps them in one record and passes it through every function.
  The libraries the closure calls (gsap, SplitText, ScrollTrigger) are not code of this
  file: every call that asks gsap or SplitText for visual work is appended to the field
  \<open>calls\<close>, the delayed call of the autoplay is the field \<open>autoplayCall\<close>, and the
  timelines whose \<open>onComplete\<close> has not run yet are the field \<open>timelines\<close>.
\<close>

subsection \<open>Exceptions\<close>

text \<open>
  A JavaScript exception leaves the assignments made before it in place, so a result
  carries the state in both cases.
\<close>

datatype js_error = TypeError

datatype 'a result = Done 'a | Threw js_error 'a

fun state_of :: "'a result \<Rightarrow> 'a" where
  "state_of (Done s) = s"
| "state_of (Threw e s) = s"

fun and_then :: "'a result \<Rightarrow> ('a \<Rightarrow> 'a result) \<Rightarrow> 'a result" where
  "and_then (Done s) f = f s"
| "and_then (Threw e s) f = Threw e s"

subsection \<open>Attribute strings and parseInt\<close>

text \<open>
  A JavaScript string is a sequence of UTF-16 code units. \<open>parseInt(string, 10)\<close> is
  the built-in of ECMAScript: convert the argument to a string (\<open>null\<close> becomes
  \<open>"null"\<close>), drop leading white space, read an optional sign, take the longest prefix
  of decimal digits; none gives NaN (here \<open>None\<close>). The result is kept as an unbounded
  integer (the double of JavaScript rounds above \<open>2^53\<close>; \<open>-0\<close> is \<open>0\<close>).
\<close>

type_synonym js_string = "nat list"

definition utf16 :: "string \<Rightarrow> js_string" where
  "utf16 cs = map of_char cs"

definition is_white_space :: "nat \<Rightarrow> bool" where
  "is_white_space c \<longleftrightarrow>
     c \<in> set [9, 10, 11, 12, 13, 32, 160, 5760, 8232, 8233, 8239, 8287, 12288, 65279]
     \<or> (8192 \<le> c \<and> c \<le> 8202)"

definition is_digit :: "nat \<Rightarrow> bool" where
  "is_digit c \<longleftrightarrow> 48 \<le> c \<and> c \<le> 57"

fun digits_value :: "int \<Rightarrow> js_string \<Rightarrow> int" where
  "digits_value acc [] = acc"
| "digits_value acc (c # cs) = digits_value (10 * acc + int (c - 48)) cs"

definition signed_digits :: "js_string \<Rightarrow> int option" where
  "signed_digits S =
     (let sign = (if S \<noteq> [] \<and> hd S = 45 then - 1 else 1);
          S' = (if S \<noteq> [] \<and> (hd S = 43 \<or> hd S = 45) then tl S else S);
          Z = takeWhile is_digit S'
      in if Z = [] then None else Some (sign * digits_value 0 Z))"

definition parseInt10 :: "js_string option \<Rightarrow> int option" where
  "parseInt10 a =
     (let inputString = (case a of None \<Rightarrow> utf16 ''null'' | Some str \<Rightarrow> str)
      in signed_digits (dropWhile is_white_space inputString))"

text \<open>\<open>parseInt(wrap.getAttribute("data-autoplay-duration"), 10) || 4000\<close>: NaN and 0 are falsy.\<close>

definition autoplayDuration_of :: "js_string option \<Rightarrow> int" where
  "autoplayDuration_of a =
     (case parseInt10 a of None \<Rightarrow> 4000 | Some n \<Rightarrow> if n = 0 then 4000 else n)"

text \<open>\<open>wrap.getAttribute("data-autoplay") === "true"\<close>.\<close>

definition autoplayEnabled_of :: "js_string option \<Rightarrow> bool" where
  "autoplayEnabled_of a \<longleftrightarrow> a = Some (utf16 ''true'')"

text \<open>
  The remainder operator \<open>%\<close> of JavaScript truncates towards zero: the result has the
  sign of the dividend. (A zero divisor gives NaN; the closure is only created for a
  non-empty list of items, so \<open>slides.length\<close> is never zero.)
\<close>

definition js_rem :: "int \<Rightarrow> int \<Rightarrow> int" where
  "js_rem a b = sgn a * (\<bar>a\<bar> mod \<bar>b\<bar>)"

subsection \<open>Data\<close>

text \<open>
  One slide: the state of its item element that the closure writes (the class
  \<open>is--active\<close> and the attribute \<open>aria-hidden\<close>), whether it has an image, and how many
  split targets it has.
\<close>

record slide =
  cls_active :: bool
  aria_hidden :: bool
  image_el :: bool
  splitTargets :: nat

text \<open>What a call to gsap or SplitText acts on, and the properties it is given.\<close>

datatype target = Item int | Image int | Lines int | InstanceLines int nat

datatype gsap_prop = AutoAlpha int | PointerEvents string | YPercent int | ClipPath string

text \<open>
  Durations and stagger amounts are in milliseconds (the source writes seconds:
  \<open>0.4\<close> is \<open>400\<close>). The position of a tween in its timeline is kept as written.
\<close>

datatype lib_call =
    GsapSet target "gsap_prop list"
  | GsapTimeline int
  | TlTo target "gsap_prop list" nat string "nat option" string
  | TlFromTo target "gsap_prop list" "gsap_prop list" nat string string
  | TlSet target "gsap_prop list" string
  | SplitTextCreate int nat

text \<open>
  The object returned by \<open>gsap.delayedCall\<close>: the time left before it calls back (ms),
  whether it is paused, and whether it can still fire (it cannot once it has fired).
\<close>

record timer =
  remaining :: int
  paused :: bool
  live :: bool

record carousel =
  slides :: "slide list"
  activeIndex :: int
  isAnimating :: bool
  reduceMotion :: bool
  autoplayEnabled :: bool
  autoplayDuration :: int
  autoplayCall :: "timer option"
  isInView :: bool
  btnPrev :: bool
  btnNext :: bool
  elCurrent :: "int option"
  elTotal :: "int option"
  timelines :: "int list"
  calls :: "lib_call list"

text \<open>\<open>slides[i]\<close>: \<open>undefined\<close> (here \<open>None\<close>) outside the array.\<close>

definition slide_at :: "slide list \<Rightarrow> int \<Rightarrow> slide option" where
  "slide_at xs i = (if 0 \<le> i \<and> i < int (length xs) then Some (xs ! nat i) else None)"

definition gsap_call :: "lib_call \<Rightarrow> carousel \<Rightarrow> carousel" where
  "gsap_call c s = s\<lparr>calls := calls s @ [c]\<rparr>"

subsection \<open>setSlideState, updateCounter\<close>

text \<open>Destructuring \<open>slides[slideIndex]\<close> throws a TypeError when it is \<open>undefined\<close>.\<close>

definition setSlideState :: "int \<Rightarrow> bool \<Rightarrow> carousel \<Rightarrow> carousel result" where
  "setSlideState slideIndex isActive s =
     (case slide_at (slides s) slideIndex of
        None \<Rightarrow> Threw TypeError s
      | Some sl \<Rightarrow>
          Done (gsap_call
            (GsapSet (Item slideIndex)
               [AutoAlpha (if isActive then 1 else 0),
                PointerEvents (if isActive then ''auto'' else ''none'')])
            (s\<lparr>slides := (slides s)
                  [nat slideIndex := sl\<lparr>cls_active := isActive, aria_hidden := \<not> isActive\<rparr>]\<rparr>)))"

text \<open>The counter element, when present, shows \<open>String(activeIndex + 1)\<close>; the model keeps the number.\<close>

definition updateCounter :: "carousel \<Rightarrow> carousel" where
  "updateCounter s =
     (case elCurrent s of None \<Rightarrow> s | Some _ \<Rightarrow> s\<lparr>elCurrent := Some (activeIndex s + 1)\<rparr>)"

subsection \<open>goTo and the completion callback of its timeline\<close>

definition goTo :: "int \<Rightarrow> carousel \<Rightarrow> carousel result" where
  "goTo nextIndex s =
     (if isAnimating s \<or> nextIndex = activeIndex s then Done s
      else
        let s1 = s\<lparr>isAnimating := True\<rparr>;
            outgoingSlide = slide_at (slides s1) (activeIndex s1);
            incomingSlide = slide_at (slides s1) nextIndex;
            out = activeIndex s1;
            s2 = gsap_call (GsapTimeline nextIndex) (s1\<lparr>timelines := timelines s1 @ [nextIndex]\<rparr>)
        in
        if reduceMotion s2 then
          (case outgoingSlide of
             None \<Rightarrow> Threw TypeError s2
           | Some outgoing \<Rightarrow>
               let s3 = gsap_call (TlTo (Item out) [AutoAlpha 0] 400 ''power2'' None ''0'') s2 in
               (case incomingSlide of
                  None \<Rightarrow> Threw TypeError s3
                | Some incoming \<Rightarrow>
                    Done (gsap_call
                      (TlFromTo (Item nextIndex) [AutoAlpha 0] [AutoAlpha 1] 400 ''power2'' ''0'') s3)))
        else
          (case outgoingSlide of
             None \<Rightarrow> Threw TypeError s2
           | Some outgoing \<Rightarrow>
               (case incomingSlide of
                  None \<Rightarrow> Threw TypeError s2
                | Some incoming \<Rightarrow>
                    let s3 = gsap_call (GsapSet (Item nextIndex) [AutoAlpha 1, PointerEvents ''auto'']) s2;
                        s4 = gsap_call (GsapSet (Lines nextIndex) [YPercent 110]) s3;
                        s5 = (if image_el incoming
                              then gsap_call (GsapSet (Image nextIndex) [ClipPath ''circle(0% at 50% 50%)'']) s4
                              else s4);
                        s6 = (if image_el outgoing
                              then gsap_call (GsapSet (Image out) [ClipPath ''circle(50% at 50% 50%)'']) s5
                              else s5);
                        s7 = gsap_call
                               (TlTo (Lines out) [YPercent (- 110)] 600 ''power4.inOut'' (Some 250) ''0'') s6;
                        s8 = (if image_el outgoing
                              then gsap_call
                                     (TlTo (Image out) [ClipPath ''circle(0% at 50% 50%)'']
                                        600 ''power4.inOut'' None ''0'') s7
                              else s7);
                        s9 = gsap_call
                               (TlTo (Lines nextIndex) [YPercent 0] 700 ''power4.inOut'' (Some 400) ''>-=0.3'') s8;
                        s10 = (if image_el incoming
                               then gsap_call
                                      (TlTo (Image nextIndex) [ClipPath ''circle(50% at 50% 50%)'']
                                         750 ''power4.inOut'' None ''<'') s9
                               else s9)
                    in Done (gsap_call (TlSet (Item out) [AutoAlpha 0] ''>'') s10))))"

text \<open>
  The \<open>onComplete\<close> of the timeline that \<open>goTo(nextIndex)\<close> created. It reads
  \<open>activeIndex\<close> when it runs.
\<close>

definition onComplete :: "int \<Rightarrow> carousel \<Rightarrow> carousel result" where
  "onComplete nextIndex s =
     and_then (setSlideState (activeIndex s) False s) (\<lambda>s1.
     and_then (setSlideState nextIndex True s1) (\<lambda>s2.
       Done ((updateCounter (s2\<lparr>activeIndex := nextIndex\<rparr>))\<lparr>isAnimating := False\<rparr>)))"

subsection \<open>Autoplay\<close>

text \<open>
  \<open>startAutoplay\<close> kills the delayed call it holds and stores a new one, running, with
  the full delay \<open>autoplayDuration / 1000\<close> seconds. The killed one is referenced no more.
\<close>

definition startAutoplay :: "carousel \<Rightarrow> carousel" where
  "startAutoplay s =
     (if \<not> autoplayEnabled s then s
      else s\<lparr>autoplayCall := Some \<lparr>remaining = autoplayDuration s, paused = False, live = True\<rparr>\<rparr>)"

text \<open>The function given to \<open>gsap.delayedCall\<close> in \<open>startAutoplay\<close>.\<close>

definition autoplayTick :: "carousel \<Rightarrow> carousel result" where
  "autoplayTick s =
     (if \<not> isInView s \<or> isAnimating s then Done (startAutoplay s)
      else and_then (goTo (js_rem (activeIndex s + 1) (int (length (slides s)))) s)
             (\<lambda>s'. Done (startAutoplay s')))"

definition pauseAutoplay :: "carousel \<Rightarrow> carousel" where
  "pauseAutoplay s =
     (case autoplayCall s of
        None \<Rightarrow> s
      | Some t \<Rightarrow> s\<lparr>autoplayCall := Some (t\<lparr>paused := True\<rparr>)\<rparr>)"

definition resumeAutoplay :: "carousel \<Rightarrow> carousel" where
  "resumeAutoplay s =
     (if \<not> autoplayEnabled s then s
      else case autoplayCall s of
             None \<Rightarrow> startAutoplay s
           | Some t \<Rightarrow> s\<lparr>autoplayCall := Some (t\<lparr>paused := False\<rparr>)\<rparr>)"

definition resetAutoplay :: "carousel \<Rightarrow> carousel" where
  "resetAutoplay s = (if \<not> autoplayEnabled s then s else startAutoplay s)"

subsection \<open>Listeners\<close>

definition btnNext_click :: "carousel \<Rightarrow> carousel result" where
  "btnNext_click s =
     (let s1 = resetAutoplay s
      in goTo (js_rem (activeIndex s1 + 1) (int (length (slides s1)))) s1)"

definition btnPrev_click :: "carousel \<Rightarrow> carousel result" where
  "btnPrev_click s =
     (let s1 = resetAutoplay s
      in goTo (js_rem (activeIndex s1 - 1 + int (length (slides s1))) (int (length (slides s1)))) s1)"

text \<open>The target of a key event: \<open>null\<close>, or an element with a tag name that may be editable.\<close>

record event_target =
  tagName :: string
  isContentEditable :: bool

definition isTypingTarget :: "event_target option \<Rightarrow> bool" where
  "isTypingTarget t =
     (case t of
        None \<Rightarrow> False
      | Some e \<Rightarrow> tagName e = ''INPUT'' \<or> tagName e = ''TEXTAREA'' \<or> isContentEditable e)"

text \<open>\<open>e.preventDefault()\<close> acts on the event only and is left out.\<close>

definition onKeyDown :: "string \<Rightarrow> event_target option \<Rightarrow> carousel \<Rightarrow> carousel result" where
  "onKeyDown key t s =
     (if \<not> isInView s then Done s
      else if isTypingTarget t then Done s
      else
        and_then
          (if key = ''ArrowRight''
           then (let s1 = resetAutoplay s
                 in goTo (js_rem (activeIndex s1 + 1) (int (length (slides s1)))) s1)
           else Done s)
          (\<lambda>s2.
             if key = ''ArrowLeft''
             then (let s3 = resetAutoplay s2
                   in goTo (js_rem (activeIndex s3 - 1 + int (length (slides s3)))
                              (int (length (slides s3)))) s3)
             else Done s2))"

text \<open>The callbacks given to \<open>ScrollTrigger.create\<close>: \<open>onEnter\<close> and \<open>onEnterBack\<close>, \<open>onLeave\<close> and \<open>onLeaveBack\<close>.\<close>

definition onEnter :: "carousel \<Rightarrow> carousel" where
  "onEnter s = resumeAutoplay (s\<lparr>isInView := True\<rparr>)"

definition onEnterBack :: "carousel \<Rightarrow> carousel" where
  "onEnterBack s = resumeAutoplay (s\<lparr>isInView := True\<rparr>)"

definition onLeave :: "carousel \<Rightarrow> carousel" where
  "onLeave s = pauseAutoplay (s\<lparr>isInView := False\<rparr>)"

definition onLeaveBack :: "carousel \<Rightarrow> carousel" where
  "onLeaveBack s = pauseAutoplay (s\<lparr>isInView := False\<rparr>)"

text \<open>The function given to \<open>gsap.matchMedia().add\<close>, called with \<open>context.conditions.reduce\<close>.\<close>

definition onMatchMedia :: "bool \<Rightarrow> carousel \<Rightarrow> carousel" where
  "onMatchMedia reduce s = s\<lparr>reduceMotion := reduce\<rparr>"

text \<open>
  The \<open>onSplit\<close> of the SplitText instance of split target \<open>j\<close> of slide \<open>slideIndex\<close>
  (there is no such instance, and no call, for other indices).
\<close>

definition onSplit :: "int \<Rightarrow> nat \<Rightarrow> carousel \<Rightarrow> carousel" where
  "onSplit slideIndex j s =
     (case slide_at (slides s) slideIndex of
        None \<Rightarrow> s
      | Some sl \<Rightarrow>
          if \<not> j < splitTargets sl then s
          else if reduceMotion s then s
          else
            let isActive = (slideIndex = activeIndex s);
                s1 = gsap_call
                       (GsapSet (InstanceLines slideIndex j) [YPercent (if isActive then 0 else 110)]) s
            in if image_el sl
               then gsap_call
                      (GsapSet (Image slideIndex)
                         [ClipPath (if isActive then ''circle(50% at 50% 50%)''
                                    else ''circle(0% at 50% 50%)'')]) s1
               else s1)"

subsection \<open>Initialisation\<close>

text \<open>
  What the closure reads from the document when it is created: the items under the list
  (\<open>None\<close> when the wrap has no list), for each item whether it carries the class
  \<open>is--active\<close>, its \<open>aria-hidden\<close>, whether it has an image, a text element, and how
  many further split elements; which optional elements exist; the two autoplay attributes
  (\<open>None\<close> when absent); and whether the media query \<open>(prefers-reduced-motion: reduce)\<close>
  matches, in which case \<open>gsap.matchMedia().add\<close> calls its function at once.
\<close>

record item_markup =
  m_active :: bool
  m_aria_hidden :: bool
  m_image :: bool
  m_text :: bool
  m_split :: nat

record wrap_markup =
  w_items :: "item_markup list option"
  w_prev :: bool
  w_next :: bool
  w_current :: bool
  w_total :: bool
  w_autoplay :: "js_string option"
  w_autoplay_duration :: "js_string option"
  w_reduce :: bool

fun findIndex :: "('a \<Rightarrow> bool) \<Rightarrow> 'a list \<Rightarrow> int" where
  "findIndex P [] = - 1"
| "findIndex P (x # xs) =
     (if P x then 0 else (let r = findIndex P xs in if r < 0 then - 1 else r + 1))"

definition slide_of_item :: "item_markup \<Rightarrow> slide" where
  "slide_of_item it =
     \<lparr>cls_active = m_active it, aria_hidden = m_aria_hidden it, image_el = m_image it,
      splitTargets = (if m_text it then 1 else 0) + m_split it\<rparr>"

text \<open>\<open>slides.forEach((_, i) => setSlideState(i, i === activeIndex))\<close> over the indices given.\<close>

fun forEach_setSlideState :: "nat list \<Rightarrow> carousel \<Rightarrow> carousel result" where
  "forEach_setSlideState [] s = Done s"
| "forEach_setSlideState (i # is) s =
     and_then (setSlideState (int i) (int i = activeIndex s) s) (forEach_setSlideState is)"

text \<open>
  \<open>slides.forEach((slide, slideIndex) => { slide.splitInstances = slide.splitTargets.map((el)
  => SplitText.create(el, {..., onSplit(self) {...}})) })\<close>: one \<open>SplitText.create\<close> for every
  split target of every slide, whatever \<open>reduceMotion\<close> is. SplitText splits the element when
  the instance is created and calls its \<open>onSplit\<close> then; a later split of the same instance
  (\<open>autoSplit\<close>) is the event \<open>Split\<close> below.
\<close>

fun createInstances :: "int \<Rightarrow> nat list \<Rightarrow> carousel \<Rightarrow> carousel" where
  "createInstances slideIndex [] s = s"
| "createInstances slideIndex (j # js) s =
     createInstances slideIndex js
       (onSplit slideIndex j (gsap_call (SplitTextCreate slideIndex j) s))"

fun forEach_createInstances :: "nat list \<Rightarrow> carousel \<Rightarrow> carousel" where
  "forEach_createInstances [] s = s"
| "forEach_createInstances (i # is) s =
     forEach_createInstances is
       (createInstances (int i) [0..<splitTargets (slides s ! i)] s)"

definition createSplitInstances :: "carousel \<Rightarrow> carousel" where
  "createSplitInstances s = forEach_createInstances [0..<length (slides s)] s"

text \<open>
  The variables of the closure as they are declared, before the statements that set the
  initial state run. (The text of the counter element is whatever the document has; the
  first \<open>updateCounter\<close> overwrites it.)
\<close>

definition declared :: "wrap_markup \<Rightarrow> item_markup list \<Rightarrow> carousel" where
  "declared w items =
     (let found = findIndex m_active items
      in \<lparr>slides = map slide_of_item items,
          activeIndex = (if found < 0 then 0 else found),
          isAnimating = False,
          reduceMotion = False,
          autoplayEnabled = autoplayEnabled_of (w_autoplay w),
          autoplayDuration = autoplayDuration_of (w_autoplay_duration w),
          autoplayCall = None,
          isInView = True,
          btnPrev = w_prev w,
          btnNext = w_next w,
          elCurrent = (if w_current w then Some 0 else None),
          elTotal = (if w_total w then Some (int (length items)) else None),
          timelines = [],
          calls = []\<rparr>)"

text \<open>
  The body run for one wrap: nothing (\<open>None\<close>) without a list or without items;
  otherwise the initial slide states, the counter, the media query, the SplitText
  instances and the autoplay.
\<close>

definition initLineRevealTestimonials :: "wrap_markup \<Rightarrow> carousel result option" where
  "initLineRevealTestimonials w =
     (case w_items w of
        None \<Rightarrow> None
      | Some items \<Rightarrow>
          if items = [] then None
          else
            let s0 = declared w items
            in Some (and_then (forEach_setSlideState [0..<length (slides s0)] s0) (\<lambda>s1.
                 let s2 = updateCounter s1;
                     s3 = (if w_reduce w then onMatchMedia True s2 else s2);
                     s4 = createSplitInstances s3
                 in Done (startAutoplay s4))))"

subsection \<open>Events\<close>

text \<open>
  After initialisation the closure runs only when the host calls one of its callbacks.
  \<open>Elapse dt\<close>: \<open>dt\<close> ms pass; a delayed call that is live and not paused counts down and
  calls back when its time is up. \<open>TimelineComplete i\<close>: the \<open>i\<close>-th timeline that has
  not completed yet completes. \<open>Split i j\<close>: the SplitText instance of split target \<open>j\<close> of
  slide \<open>i\<close> splits again. A click reaches the closure only if the button exists.
  An exception thrown by a callback ends that callback; the state stays as it was left.
\<close>

datatype event =
    ClickNext
  | ClickPrev
  | KeyDown string "event_target option"
  | Elapse nat
  | ScrollEnter
  | ScrollEnterBack
  | ScrollLeave
  | ScrollLeaveBack
  | MatchMedia bool
  | Split int nat
  | TimelineComplete nat

definition elapse :: "nat \<Rightarrow> carousel \<Rightarrow> carousel result" where
  "elapse dt s =
     (case autoplayCall s of
        None \<Rightarrow> Done s
      | Some t \<Rightarrow>
          if paused t \<or> \<not> live t then Done s
          else if int dt < remaining t
          then Done (s\<lparr>autoplayCall := Some (t\<lparr>remaining := remaining t - int dt\<rparr>)\<rparr>)
          else autoplayTick (s\<lparr>autoplayCall := Some (t\<lparr>remaining := 0, live := False\<rparr>)\<rparr>))"

definition timelineComplete :: "nat \<Rightarrow> carousel \<Rightarrow> carousel result" where
  "timelineComplete i s =
     (if i < length (timelines s)
      then onComplete (timelines s ! i)
             (s\<lparr>timelines := take i (timelines s) @ drop (Suc i) (timelines s)\<rparr>)
      else Done s)"

fun handle :: "event \<Rightarrow> carousel \<Rightarrow> carousel result" where
  "handle ClickNext s = (if btnNext s then btnNext_click s else Done s)"
| "handle ClickPrev s = (if btnPrev s then btnPrev_click s else Done s)"
| "handle (KeyDown key t) s = onKeyDown key t s"
| "handle (Elapse dt) s = elapse dt s"
| "handle ScrollEnter s = Done (onEnter s)"
| "handle ScrollEnterBack s = Done (onEnterBack s)"
| "handle ScrollLeave s = Done (onLeave s)"
| "handle ScrollLeaveBack s = Done (onLeaveBack s)"
| "handle (MatchMedia b) s = Done (onMatchMedia b s)"
| "handle (Split i j) s = Done (onSplit i j s)"
| "handle (TimelineComplete i) s = timelineComplete i s"

definition step :: "carousel \<Rightarrow> event \<Rightarrow> carousel" where
  "step s e = state_of (handle e s)"

definition run :: "carousel \<Rightarrow> event list \<Rightarrow> carousel" where
  "run s evs = foldl step s evs"

section \<open>Notions used in the statements\<close>

text \<open>An index that \<open>slides[i]\<close> finds.\<close>

definition in_range :: "carousel \<Rightarrow> int \<Rightarrow> bool" where
  "in_range s i \<longleftrightarrow> 0 \<le> i \<and> i < int (length (slides s))"

text \<open>Exactly one slide carries the class \<open>is--active\<close>.\<close>

definition one_active :: "carousel \<Rightarrow> bool" where
  "one_active s \<longleftrightarrow> length (filter cls_active (slides s)) = 1"

text \<open>The slide that carries the class is the one at \<open>activeIndex\<close>, and no other.\<close>

definition marks_ok :: "carousel \<Rightarrow> bool" where
  "marks_ok s \<longleftrightarrow>
     map cls_active (slides s) = map (\<lambda>j. int j = activeIndex s) [0..<length (slides s)]"

text \<open>
  While \<open>isAnimating\<close> holds, one timeline is waiting to complete, towards another slide
  of the list; otherwise none is.
\<close>

definition pending_ok :: "carousel \<Rightarrow> bool" where
  "pending_ok s \<longleftrightarrow>
     (if isAnimating s
      then (case timelines s of
              [k] \<Rightarrow> in_range s k \<and> k \<noteq> activeIndex s
            | _ \<Rightarrow> False)
      else timelines s = [])"

text \<open>What every state of an initialised carousel satisfies.\<close>

definition consistent :: "carousel \<Rightarrow> bool" where
  "consistent s \<longleftrightarrow> in_range s (activeIndex s) \<and> marks_ok s \<and> pending_ok s"

text \<open>The part of the state that decides which slide is shown and whether a transition may start.\<close>

definition core :: "carousel \<Rightarrow> slide list \<times> int \<times> bool \<times> int list" where
  "core s = (slides s, activeIndex s, isAnimating s, timelines s)"





text \<open>The events that ask for another slide: the two buttons, a key, the passing of time (autoplay).\<close>

fun navigation :: "event \<Rightarrow> bool" where
  "navigation ClickNext = True"
| "navigation ClickPrev = True"
| "navigation (KeyDown key t) = True"
| "navigation (Elapse dt) = True"
| "navigation _ = False"

text \<open>The event that runs the \<open>onComplete\<close> of a timeline.\<close>

fun completion :: "event \<Rightarrow> bool" where
  "completion (TimelineComplete i) = True"
| "completion _ = False"

text \<open>
  A carousel that cannot move: a transition is marked as in progress, and no timeline
  that could still complete is headed for a slide of the list.
\<close>

definition locked :: "carousel \<Rightarrow> bool" where
  "locked s \<longleftrightarrow>
     isAnimating s \<and> in_range s (activeIndex s) \<and> list_all (\<lambda>k. \<not> in_range s k) (timelines s)"

subsection \<open>A carousel of four slides, and one of one slide\<close>

definition demo_markup :: wrap_markup where
  "demo_markup =
     \<lparr>w_items = Some
        [\<lparr>m_active = False, m_aria_hidden = False, m_image = True, m_text = True, m_split = 1\<rparr>,
         \<lparr>m_active = False, m_aria_hidden = False, m_image = False, m_text = True, m_split = 0\<rparr>,
         \<lparr>m_active = False, m_aria_hidden = False, m_image = True, m_text = False, m_split = 0\<rparr>,
         \<lparr>m_active = False, m_aria_hidden = False, m_image = True, m_text = True, m_split = 0\<rparr>],
      w_prev = True, w_next = True, w_current = True, w_total = True,
      w_autoplay = Some (utf16 ''true''), w_autoplay_duration = Some (utf16 ''abc''),
      w_reduce = False\<rparr>"

text \<open>The state that \<open>demo_markup\<close> is initialised to, with the record of library calls emptied.\<close>

definition demo :: carousel where
  "demo =
     \<lparr>slides =
        [\<lparr>cls_active = True, aria_hidden = False, image_el = True, splitTargets = 2\<rparr>,
         \<lparr>cls_active = False, aria_hidden = True, image_el = False, splitTargets = 1\<rparr>,
         \<lparr>cls_active = False, aria_hidden = True, image_el = True, splitTargets = 0\<rparr>,
         \<lparr>cls_active = False, aria_hidden = True, image_el = True, splitTargets = 1\<rparr>],
      activeIndex = 0, isAnimating = False, reduceMotion = False,
      autoplayEnabled = True, autoplayDuration = 4000,
      autoplayCall = Some \<lparr>remaining = 4000, paused = False, live = True\<rparr>,
      isInView = True, btnPrev = True, btnNext = True,
      elCurrent = Some 1, elTotal = Some 4, timelines = [], calls = []\<rparr>"

text \<open>A carousel of one slide.\<close>

definition solo :: carousel where
  "solo = demo\<lparr>slides := [\<lparr>cls_active = True, aria_hidden = False, image_el = True, splitTargets = 1\<rparr>],
              elTotal := Some 1\<rparr>"

section \<open>Properties\<close>

subsection \<open>The model on the example\<close>

lemma init_demo:
  "map_option (\<lambda>r. (state_of r)\<lparr>calls := []\<rparr>) (initLineRevealTestimonials demo_markup) = Some demo"
  by (simp add: initLineRevealTestimonials_def declared_def demo_markup_def demo_def utf16_def
     autoplayEnabled_of_def autoplayDuration_of_def parseInt10_def signed_digits_def
     is_white_space_def is_digit_def slide_of_item_def upt_rec setSlideState_def slide_at_def
     gsap_call_def updateCounter_def createSplitInstances_def onSplit_def startAutoplay_def Let_def)

subsection \<open>The guard of goTo\<close>

text \<open>
  C1. Whatever the state and the target index: when \<open>isAnimating\<close> is true, or the
  target is the current \<open>activeIndex\<close>, \<open>goTo\<close> returns normally and the state it leaves
  is the state it found. So \<open>activeIndex\<close>, \<open>isAnimating\<close>, the marking of every slide and
  the counter are unchanged, no call to the animator is added to \<open>calls\<close>, and no
  timeline is created.
\<close>

theorem goTo_guard_noop:
  "isAnimating s \<or> targetIndex = activeIndex s \<Longrightarrow> goTo targetIndex s = Done s"
  by (simp add: goTo_def)

theorem goTo_guard_noop_witness:
  "isAnimating (demo\<lparr>isAnimating := True, timelines := [1]\<rparr>)
   \<and> goTo 3 (demo\<lparr>isAnimating := True, timelines := [1]\<rparr>)
       = Done (demo\<lparr>isAnimating := True, timelines := [1]\<rparr>)
   \<and> 0 = activeIndex demo \<and> goTo 0 demo = Done demo"
  using goTo_guard_noop [of "demo\<lparr>isAnimating := True, timelines := [1]\<rparr>" 3]
        goTo_guard_noop [of demo 0]
  by (simp add: demo_def)

subsection \<open>Reading the autoplay duration\<close>












subsection \<open>Indices and slide states\<close>

lemma js_rem_mod: "0 \<le> a \<Longrightarrow> 0 < n \<Longrightarrow> js_rem a n = a mod n"
  by (cases "a = 0") (simp_all add: js_rem_def)

lemma slide_at_in: "0 \<le> i \<Longrightarrow> i < int (length xs) \<Longrightarrow> slide_at xs i = Some (xs ! nat i)"
  by (simp add: slide_at_def)

lemma slide_at_out: "\<not> (0 \<le> i \<and> i < int (length xs)) \<Longrightarrow> slide_at xs i = None"
  by (auto simp: slide_at_def)

lemma setSlideState_in:
  "in_range s i \<Longrightarrow>
   setSlideState i b s =
     Done (s\<lparr>slides := (slides s)[nat i := (slides s ! nat i)\<lparr>cls_active := b, aria_hidden := \<not> b\<rparr>],
             calls := calls s @ [GsapSet (Item i) [AutoAlpha (if b then 1 else 0),
                                   PointerEvents (if b then ''auto'' else ''none'')]]\<rparr>)"
  by (simp add: setSlideState_def in_range_def slide_at_in gsap_call_def)

lemma setSlideState_out: "\<not> in_range s i \<Longrightarrow> setSlideState i b s = Threw TypeError s"
  by (simp add: setSlideState_def in_range_def slide_at_out)

subsection \<open>Initialisation returns\<close>

lemma onSplit_frame [simp]:
  "slides (onSplit i j s) = slides s"
  "activeIndex (onSplit i j s) = activeIndex s"
  "isAnimating (onSplit i j s) = isAnimating s"
  "timelines (onSplit i j s) = timelines s"
  "reduceMotion (onSplit i j s) = reduceMotion s"
  "autoplayEnabled (onSplit i j s) = autoplayEnabled s"
  "autoplayDuration (onSplit i j s) = autoplayDuration s"
  by (simp_all add: onSplit_def gsap_call_def Let_def split: option.splits)

lemma onSplit_calls: "set (calls s) \<subseteq> set (calls (onSplit i j s))"
  by (auto simp: onSplit_def gsap_call_def Let_def split: option.splits)

lemma createInstances_frame [simp]:
  "slides (createInstances i js s) = slides s"
  "activeIndex (createInstances i js s) = activeIndex s"
  "isAnimating (createInstances i js s) = isAnimating s"
  "timelines (createInstances i js s) = timelines s"
  "reduceMotion (createInstances i js s) = reduceMotion s"
  "autoplayEnabled (createInstances i js s) = autoplayEnabled s"
  "autoplayDuration (createInstances i js s) = autoplayDuration s"
  by (induction js arbitrary: s; simp add: gsap_call_def)+

lemma forEach_createInstances_frame [simp]:
  "slides (forEach_createInstances is s) = slides s"
  "activeIndex (forEach_createInstances is s) = activeIndex s"
  "isAnimating (forEach_createInstances is s) = isAnimating s"
  "timelines (forEach_createInstances is s) = timelines s"
  "reduceMotion (forEach_createInstances is s) = reduceMotion s"
  "autoplayEnabled (forEach_createInstances is s) = autoplayEnabled s"
  "autoplayDuration (forEach_createInstances is s) = autoplayDuration s"
  by (induction "is" arbitrary: s; simp)+

lemma createSplitInstances_frame [simp]:
  "slides (createSplitInstances s) = slides s"
  "activeIndex (createSplitInstances s) = activeIndex s"
  "isAnimating (createSplitInstances s) = isAnimating s"
  "timelines (createSplitInstances s) = timelines s"
  "reduceMotion (createSplitInstances s) = reduceMotion s"
  "autoplayEnabled (createSplitInstances s) = autoplayEnabled s"
  "autoplayDuration (createSplitInstances s) = autoplayDuration s"
  by (simp_all add: createSplitInstances_def)

lemma createInstances_calls:
  "set (calls s) \<subseteq> set (calls (createInstances i js s))
   \<and> (\<forall>j\<in>set js. SplitTextCreate i j \<in> set (calls (createInstances i js s)))"
proof (induction js arbitrary: s)
  case Nil
  show ?case by simp
next
  case (Cons j js)
  let ?s' = "onSplit i j (gsap_call (SplitTextCreate i j) s)"
  have a: "set (calls s) \<subseteq> set (calls ?s')" "SplitTextCreate i j \<in> set (calls ?s')"
    using onSplit_calls [of "gsap_call (SplitTextCreate i j) s" i j]
    by (auto simp: gsap_call_def)
  from Cons.IH [of ?s'] a show ?case by auto
qed

lemma forEach_createInstances_calls:
  "set (calls s) \<subseteq> set (calls (forEach_createInstances is s))
   \<and> (\<forall>i\<in>set is. \<forall>j<splitTargets (slides s ! i).
         SplitTextCreate (int i) j \<in> set (calls (forEach_createInstances is s)))"
proof (induction "is" arbitrary: s)
  case Nil
  show ?case by simp
next
  case (Cons i "is")
  let ?s' = "createInstances (int i) [0..<splitTargets (slides s ! i)] s"
  have a: "set (calls s) \<subseteq> set (calls ?s')"
    "\<forall>j<splitTargets (slides s ! i). SplitTextCreate (int i) j \<in> set (calls ?s')"
    using createInstances_calls [of s "int i" "[0..<splitTargets (slides s ! i)]"] by simp_all
  have sl: "slides ?s' = slides s" by simp
  from Cons.IH [of ?s'] have
    b: "set (calls ?s') \<subseteq> set (calls (forEach_createInstances is ?s'))"
    and c: "\<forall>i\<in>set is. \<forall>j<splitTargets (slides s ! i).
         SplitTextCreate (int i) j \<in> set (calls (forEach_createInstances is ?s'))"
    by (simp_all add: sl)
  from a b c show ?case by auto
qed

lemma forEach_setSlideState_Done:
  "\<forall>i\<in>set js. i < length (slides s) \<Longrightarrow>
   \<exists>s'. forEach_setSlideState js s = Done s'
      \<and> s' = s\<lparr>slides := slides s', calls := calls s'\<rparr>
      \<and> length (slides s') = length (slides s)
      \<and> (\<forall>j<length (slides s). slides s' ! j =
            (if j \<in> set js
             then (slides s ! j)\<lparr>cls_active := (int j = activeIndex s),
                                    aria_hidden := \<not> (int j = activeIndex s)\<rparr>
             else slides s ! j))"
proof (induction js arbitrary: s)
  case Nil
  then show ?case by simp
next
  case (Cons i js)
  define s1 where "s1 = s\<lparr>slides := (slides s)[i := (slides s ! i)\<lparr>cls_active := (int i = activeIndex s), aria_hidden := \<not> (int i = activeIndex s)\<rparr>],
             calls := calls s @ [GsapSet (Item (int i)) [AutoAlpha (if int i = activeIndex s then 1 else 0),
                                   PointerEvents (if int i = activeIndex s then ''auto'' else ''none'')]]\<rparr>"
  have i: "i < length (slides s)" using Cons.prems by simp
  then have "in_range s (int i)" by (simp add: in_range_def)
  then have step: "setSlideState (int i) (int i = activeIndex s) s = Done s1"
    by (simp add: setSlideState_in s1_def)
  have len1: "length (slides s1) = length (slides s)" and a1: "activeIndex s1 = activeIndex s"
    by (simp_all add: s1_def)
  have "\<forall>i\<in>set js. i < length (slides s1)" using Cons.prems len1 by simp
  from Cons.IH [OF this] obtain s' where
    r: "forEach_setSlideState js s1 = Done s'"
    and f: "s' = s1\<lparr>slides := slides s', calls := calls s'\<rparr>"
    and l: "length (slides s') = length (slides s1)"
    and m: "\<forall>j<length (slides s1). slides s' ! j =
            (if j \<in> set js
             then (slides s1 ! j)\<lparr>cls_active := (int j = activeIndex s1),
                                    aria_hidden := \<not> (int j = activeIndex s1)\<rparr>
             else slides s1 ! j)"
    by blast
  have "forEach_setSlideState (i # js) s = Done s'" using step r by simp
  moreover have "s' = s\<lparr>slides := slides s', calls := calls s'\<rparr>"
    by (subst f) (simp add: s1_def)
  moreover have "length (slides s') = length (slides s)" using l len1 by simp
  moreover have "\<forall>j<length (slides s). slides s' ! j =
            (if j \<in> set (i # js)
             then (slides s ! j)\<lparr>cls_active := (int j = activeIndex s),
                                    aria_hidden := \<not> (int j = activeIndex s)\<rparr>
             else slides s ! j)"
  proof (intro allI impI)
    fix j assume j: "j < length (slides s)"
    have s1j: "slides s1 ! j = (if j = i then (slides s ! i)\<lparr>cls_active := (int i = activeIndex s), aria_hidden := \<not> (int i = activeIndex s)\<rparr> else slides s ! j)"
      using j by (simp add: s1_def nth_list_update)
    from m j len1 have "slides s' ! j =
            (if j \<in> set js
             then (slides s1 ! j)\<lparr>cls_active := (int j = activeIndex s1),
                                    aria_hidden := \<not> (int j = activeIndex s1)\<rparr>
             else slides s1 ! j)" by simp
    then show "slides s' ! j =
            (if j \<in> set (i # js)
             then (slides s ! j)\<lparr>cls_active := (int j = activeIndex s),
                                    aria_hidden := \<not> (int j = activeIndex s)\<rparr>
             else slides s ! j)"
      using s1j by (auto simp: a1)
  qed
  ultimately show ?case by blast
qed


lemma findIndex_bounds: "findIndex P xs \<le> int (length xs) - 1"
proof (induction xs)
  case Nil
  show ?case by simp
next
  case (Cons x xs)
  let ?r = "findIndex P xs"
  have e: "findIndex P (x # xs) = (if P x then 0 else if ?r < 0 then - 1 else ?r + 1)"
    by (simp only: findIndex.simps Let_def)
  have l: "int (length (x # xs)) - 1 = int (length xs)" by simp
  have "(if P x then 0 else if ?r < 0 then - 1 else ?r + 1) \<le> int (length xs)"
  proof (cases "P x")
    case True
    then show ?thesis by simp
  next
    case False
    note np = this
    show ?thesis
    proof (cases "?r < 0")
      case True
      have "(- 1 :: int) \<le> int (length xs)" by linarith
      with np True show ?thesis by (simp only: if_True if_False)
    next
      case False
      have "?r + 1 \<le> int (length xs)" using Cons.IH by linarith
      with np False show ?thesis by (simp only: if_True if_False)
    qed
  qed
  then show ?case unfolding e l .
qed

lemma marks_ok_iff:
  "marks_ok s \<longleftrightarrow> (\<forall>j<length (slides s). cls_active (slides s ! j) \<longleftrightarrow> int j = activeIndex s)"
  unfolding marks_ok_def by (subst list_eq_iff_nth_eq) simp

lemma init_result:
  assumes "w_items w = Some items" "items \<noteq> []"
  shows "\<exists>s. initLineRevealTestimonials w = Some (Done s)
           \<and> consistent s \<and> \<not> isAnimating s
           \<and> length (slides s) = length items
           \<and> reduceMotion s = w_reduce w
           \<and> autoplayEnabled s = autoplayEnabled_of (w_autoplay w)
           \<and> autoplayDuration s = autoplayDuration_of (w_autoplay_duration w)"
proof -
  define s0 where "s0 = declared w items"
  have len0: "length (slides s0) = length items" by (simp add: s0_def declared_def Let_def)
  have a0: "0 \<le> activeIndex s0" "activeIndex s0 < int (length items)"
    using findIndex_bounds [of m_active items] assms(2)
    by (simp_all add: s0_def declared_def Let_def)
  have "\<forall>i\<in>set [0..<length (slides s0)]. i < length (slides s0)" by simp
  from forEach_setSlideState_Done [OF this] obtain s1 where
    r: "forEach_setSlideState [0..<length (slides s0)] s0 = Done s1"
    and f: "s1 = s0\<lparr>slides := slides s1, calls := calls s1\<rparr>"
    and l: "length (slides s1) = length (slides s0)"
    and m: "\<forall>j<length (slides s0). slides s1 ! j =
            (if j \<in> set [0..<length (slides s0)]
             then (slides s0 ! j)\<lparr>cls_active := (int j = activeIndex s0),
                                    aria_hidden := \<not> (int j = activeIndex s0)\<rparr>
             else slides s0 ! j)"
    by blast
  define s where "s = startAutoplay (createSplitInstances
      (if w_reduce w then onMatchMedia True (updateCounter s1) else updateCounter s1))"
  have init: "initLineRevealTestimonials w = Some (Done s)"
    using assms r by (simp add: initLineRevealTestimonials_def s0_def [symmetric] s_def Let_def)
  have f1: "activeIndex s1 = activeIndex s0" "isAnimating s1 = False" "timelines s1 = []"
     "reduceMotion s1 = False" "autoplayEnabled s1 = autoplayEnabled_of (w_autoplay w)"
     "autoplayDuration s1 = autoplayDuration_of (w_autoplay_duration w)"
    by (subst f, simp add: s0_def declared_def Let_def)+
  have fs: "slides s = slides s1" "activeIndex s = activeIndex s1" "isAnimating s = isAnimating s1"
     "timelines s = timelines s1" "reduceMotion s = (w_reduce w \<or> reduceMotion s1)"
     "autoplayEnabled s = autoplayEnabled s1" "autoplayDuration s = autoplayDuration s1"
    by (simp_all add: s_def startAutoplay_def onMatchMedia_def
          updateCounter_def split: option.splits)
  have "marks_ok s"
    unfolding marks_ok_iff using m l by (simp add: fs f1)
  moreover have "in_range s (activeIndex s)"
    using a0 l len0 by (simp add: in_range_def fs f1)
  moreover have "pending_ok s" by (simp add: pending_ok_def fs f1)
  ultimately have "consistent s" by (simp add: consistent_def)
  with init show ?thesis using l len0 by (auto simp: fs f1)
qed

subsection \<open>The default autoplay duration\<close>




subsection \<open>What the autoplay functions leave alone\<close>

lemma startAutoplay_frame [simp]:
  "slides (startAutoplay s) = slides s"
  "activeIndex (startAutoplay s) = activeIndex s"
  "isAnimating (startAutoplay s) = isAnimating s"
  "timelines (startAutoplay s) = timelines s"
  "calls (startAutoplay s) = calls s"
  "reduceMotion (startAutoplay s) = reduceMotion s"
  "isInView (startAutoplay s) = isInView s"
  "autoplayEnabled (startAutoplay s) = autoplayEnabled s"
  "autoplayDuration (startAutoplay s) = autoplayDuration s"
  by (simp_all add: startAutoplay_def)

lemma resetAutoplay_eq: "resetAutoplay s = startAutoplay s"
  by (simp add: resetAutoplay_def startAutoplay_def)

lemma startAutoplay_enabled:
  "autoplayEnabled s \<Longrightarrow>
   startAutoplay s = s\<lparr>autoplayCall := Some \<lparr>remaining = autoplayDuration s, paused = False, live = True\<rparr>\<rparr>"
  by (simp add: startAutoplay_def)

lemma in_range_startAutoplay [simp]: "in_range (startAutoplay s) i = in_range s i"
  by (simp add: in_range_def)

lemma goTo_start:
  assumes "\<not> isAnimating s" "t \<noteq> activeIndex s" "in_range s (activeIndex s)" "in_range s t"
  shows "goTo t s =
           Done (s\<lparr>isAnimating := True, timelines := timelines s @ [t],
                   calls := calls (state_of (goTo t s))\<rparr>)"
  using assms
  by (simp add: goTo_def in_range_def slide_at_in gsap_call_def Let_def)

lemma goTo_Done:
  assumes "in_range s (activeIndex s)" "in_range s t"
  shows "\<exists>s'. goTo t s = Done s'"
proof (cases "isAnimating s \<or> t = activeIndex s")
  case True
  then show ?thesis by (simp add: goTo_def)
next
  case False
  then show ?thesis using goTo_start [of s t] assms by metis
qed

lemma next_target:
  assumes "in_range s (activeIndex s)"
  shows "js_rem (activeIndex s + 1) (int (length (slides s))) = (activeIndex s + 1) mod int (length (slides s))"
    and "in_range s ((activeIndex s + 1) mod int (length (slides s)))"
proof -
  have n: "0 < int (length (slides s))" and a: "0 \<le> activeIndex s + 1"
    using assms by (auto simp: in_range_def)
  show "js_rem (activeIndex s + 1) (int (length (slides s))) = (activeIndex s + 1) mod int (length (slides s))"
    by (rule js_rem_mod [OF a n])
  show "in_range s ((activeIndex s + 1) mod int (length (slides s)))"
    using n by (simp add: in_range_def)
qed

lemma prev_target:
  assumes "in_range s (activeIndex s)"
  shows "js_rem (activeIndex s - 1 + int (length (slides s))) (int (length (slides s)))
           = (activeIndex s - 1 + int (length (slides s))) mod int (length (slides s))"
    and "in_range s ((activeIndex s - 1 + int (length (slides s))) mod int (length (slides s)))"
proof -
  have n: "0 < int (length (slides s))" and a: "0 \<le> activeIndex s - 1 + int (length (slides s))"
    using assms by (auto simp: in_range_def)
  show "js_rem (activeIndex s - 1 + int (length (slides s))) (int (length (slides s)))
           = (activeIndex s - 1 + int (length (slides s))) mod int (length (slides s))"
    by (rule js_rem_mod [OF a n])
  show "in_range s ((activeIndex s - 1 + int (length (slides s))) mod int (length (slides s)))"
    using n by (simp add: in_range_def)
qed

subsection \<open>The autoplay tick\<close>

text \<open>
  C5. Each time the delayed call of the autoplay fires (autoplay is enabled, the active
  index is one of the slides): if the carousel is not in view or a transition is in
  progress, the state is left as it is but for a new delayed call with the full
  \<open>autoplayDuration\<close>, so the index does not advance, no timeline is created and no
  animator call is made; otherwise \<open>goTo\<close> is called with
  \<open>(activeIndex + 1) mod slideCount\<close>, it returns, and then the new delayed call with the
  full duration is stored.
\<close>

theorem autoplayTick_blocked_or_advances:
  assumes "autoplayEnabled s" and "in_range s (activeIndex s)"
  shows "(\<not> isInView s \<or> isAnimating s \<longrightarrow>
            autoplayTick s =
              Done (s\<lparr>autoplayCall :=
                         Some \<lparr>remaining = autoplayDuration s, paused = False, live = True\<rparr>\<rparr>))
       \<and> (isInView s \<and> \<not> isAnimating s \<longrightarrow>
            (\<exists>s'. goTo ((activeIndex s + 1) mod int (length (slides s))) s = Done s'
                \<and> autoplayTick s =
                    Done (s'\<lparr>autoplayCall :=
                               Some \<lparr>remaining = autoplayDuration s, paused = False, live = True\<rparr>\<rparr>)))"
proof (intro conjI impI)
  assume "\<not> isInView s \<or> isAnimating s"
  then show "autoplayTick s =
              Done (s\<lparr>autoplayCall :=
                         Some \<lparr>remaining = autoplayDuration s, paused = False, live = True\<rparr>\<rparr>)"
    using assms(1) by (simp add: autoplayTick_def startAutoplay_enabled)
next
  assume free: "isInView s \<and> \<not> isAnimating s"
  let ?t = "(activeIndex s + 1) mod int (length (slides s))"
  obtain s' where g: "goTo ?t s = Done s'"
    using goTo_Done [OF assms(2) next_target(2) [OF assms(2)]] by blast
  have e: "autoplayEnabled s'" "autoplayDuration s' = autoplayDuration s"
    using g assms(1) by (auto simp: goTo_def gsap_call_def Let_def split: if_splits option.splits)
  have "autoplayTick s = Done (startAutoplay s')"
    using free g by (simp add: autoplayTick_def next_target(1) [OF assms(2)])
  then show "\<exists>s'. goTo ?t s = Done s'
                \<and> autoplayTick s =
                    Done (s'\<lparr>autoplayCall :=
                               Some \<lparr>remaining = autoplayDuration s, paused = False, live = True\<rparr>\<rparr>)"
    using g e by (simp add: startAutoplay_enabled)
qed


theorem autoplayTick_blocked_or_advances_witness:
  "autoplayEnabled demo \<and> in_range demo (activeIndex demo)
   \<and> autoplayTick (demo\<lparr>isInView := False, autoplayCall := Some \<lparr>remaining = 0, paused = False, live = False\<rparr>\<rparr>)
       = Done (demo\<lparr>isInView := False\<rparr>)
   \<and> (\<exists>s'. goTo 1 demo = Done s' \<and> isAnimating s' \<and> timelines s' = [1] \<and> activeIndex s' = 0
          \<and> autoplayTick demo = Done s')"
  using autoplayTick_blocked_or_advances
          [of "demo\<lparr>isInView := False, autoplayCall := Some \<lparr>remaining = 0, paused = False, live = False\<rparr>\<rparr>"]
        autoplayTick_blocked_or_advances [of demo]
  by (simp add: demo_def in_range_def goTo_def slide_at_def gsap_call_def Let_def)

lemma elapse_fires:
  "autoplayCall s = Some t \<Longrightarrow> \<not> paused t \<Longrightarrow> live t \<Longrightarrow> remaining t \<le> int dt \<Longrightarrow>
   elapse dt s = autoplayTick (s\<lparr>autoplayCall := Some (t\<lparr>remaining := 0, live := False\<rparr>)\<rparr>)"
  by (simp add: elapse_def)

subsection \<open>Leaving and entering the viewport\<close>



lemma goTo_busy_or_same: "isAnimating s \<or> t = activeIndex s \<Longrightarrow> goTo t s = Done s"
  by (simp add: goTo_def)

subsection \<open>next and prev\<close>

text \<open>
  C4. For a carousel of \<open>N \<ge> 1\<close> slides whose active index is one of them, the next
  button calls \<open>goTo\<close> with \<open>(activeIndex + 1) mod N\<close> and the previous button with
  \<open>(activeIndex - 1 + N) mod N\<close>, each after \<open>resetAutoplay\<close>, which replaces the delayed
  call by a new one with the full duration when autoplay is enabled and does nothing
  otherwise. Both targets are indices of slides. With 4 slides, the previous button at
  index 0, when no transition runs, starts a transition whose timeline will complete
  towards index 3.
\<close>

theorem next_prev_targets:
  assumes "in_range s (activeIndex s)"
  shows "btnNext_click s
           = goTo ((activeIndex s + 1) mod int (length (slides s))) (resetAutoplay s)
       \<and> btnPrev_click s
           = goTo ((activeIndex s - 1 + int (length (slides s))) mod int (length (slides s)))
               (resetAutoplay s)
       \<and> resetAutoplay s =
           (if autoplayEnabled s
            then s\<lparr>autoplayCall :=
                     Some \<lparr>remaining = autoplayDuration s, paused = False, live = True\<rparr>\<rparr>
            else s)
       \<and> in_range s ((activeIndex s + 1) mod int (length (slides s)))
       \<and> in_range s ((activeIndex s - 1 + int (length (slides s))) mod int (length (slides s)))
       \<and> (length (slides s) = 4 \<and> activeIndex s = 0 \<and> \<not> isAnimating s \<longrightarrow>
            (\<exists>s'. btnPrev_click s = Done s' \<and> isAnimating s' \<and> activeIndex s' = 0
                 \<and> timelines s' = timelines s @ [3]))"
proof -
  let ?n = "int (length (slides s))"
  have r: "resetAutoplay s =
           (if autoplayEnabled s
            then s\<lparr>autoplayCall :=
                     Some \<lparr>remaining = autoplayDuration s, paused = False, live = True\<rparr>\<rparr>
            else s)"
    by (simp add: resetAutoplay_def startAutoplay_def)
  have f: "activeIndex (resetAutoplay s) = activeIndex s" "slides (resetAutoplay s) = slides s"
    "isAnimating (resetAutoplay s) = isAnimating s" "timelines (resetAutoplay s) = timelines s"
    by (simp_all add: resetAutoplay_eq)
  have n: "btnNext_click s = goTo ((activeIndex s + 1) mod ?n) (resetAutoplay s)"
    using next_target(1) [OF assms] by (simp add: btnNext_click_def f)
  have p: "btnPrev_click s = goTo ((activeIndex s - 1 + ?n) mod ?n) (resetAutoplay s)"
    using prev_target(1) [OF assms] by (simp add: btnPrev_click_def f)
  have four: "\<exists>s'. btnPrev_click s = Done s' \<and> isAnimating s' \<and> activeIndex s' = 0
                 \<and> timelines s' = timelines s @ [3]"
    if h: "length (slides s) = 4 \<and> activeIndex s = 0 \<and> \<not> isAnimating s"
  proof -
    let ?s = "resetAutoplay s"
    have "goTo 3 ?s = Done (?s\<lparr>isAnimating := True, timelines := timelines ?s @ [3],
                   calls := calls (state_of (goTo 3 ?s))\<rparr>)"
      using h by (intro goTo_start) (simp_all add: f in_range_def)
    moreover have "btnPrev_click s = goTo 3 ?s" using p h by simp
    ultimately have "btnPrev_click s = Done (?s\<lparr>isAnimating := True, timelines := timelines ?s @ [3],
                   calls := calls (state_of (goTo 3 ?s))\<rparr>)" by simp
    then show ?thesis using h by (simp add: f)
  qed
  from n p r next_target(2) [OF assms] prev_target(2) [OF assms] four show ?thesis
    by blast
qed

theorem next_prev_targets_witness:
  "in_range demo (activeIndex demo)
   \<and> timelines (state_of (btnPrev_click demo)) = [3]
   \<and> timelines (state_of (btnNext_click demo)) = [1]
   \<and> btnPrev_click (demo\<lparr>activeIndex := 2\<rparr>) = goTo 1 (demo\<lparr>activeIndex := 2\<rparr>)
   \<and> btnNext_click (demo\<lparr>activeIndex := 3\<rparr>) = goTo 0 (demo\<lparr>activeIndex := 3\<rparr>)"
  using next_prev_targets [of demo] next_prev_targets [of "demo\<lparr>activeIndex := 2\<rparr>"]
        next_prev_targets [of "demo\<lparr>activeIndex := 3\<rparr>"]
  by (simp add: demo_def in_range_def goTo_def slide_at_def gsap_call_def Let_def)

subsection \<open>A single slide\<close>

lemma single_slide_targets:
  "js_rem 1 1 = 0" "js_rem 0 1 = 0"
  by (simp_all add: js_rem_def)

lemma single_slide_step:
  assumes "length (slides s) = 1" "activeIndex s = 0" "navigation e"
  shows "core (step s e) = core s \<and> calls (step s e) = calls s"
proof (cases e)
  case ClickNext
  then show ?thesis using assms
    by (simp add: step_def btnNext_click_def resetAutoplay_eq single_slide_targets goTo_busy_or_same core_def)
next
  case ClickPrev
  then show ?thesis using assms
    by (simp add: step_def btnPrev_click_def resetAutoplay_eq single_slide_targets goTo_busy_or_same core_def)
next
  case (KeyDown key t)
  then show ?thesis using assms
    by (simp add: step_def onKeyDown_def resetAutoplay_eq single_slide_targets goTo_busy_or_same core_def)
next
  case (Elapse dt)
  then show ?thesis using assms
    by (simp add: step_def elapse_def autoplayTick_def single_slide_targets goTo_busy_or_same core_def
          split: option.splits)
qed (use assms in simp_all)

lemma single_slide_run:
  "length (slides s) = 1 \<Longrightarrow> activeIndex s = 0 \<Longrightarrow> list_all navigation evs \<Longrightarrow>
   core (run s evs) = core s \<and> calls (run s evs) = calls s"
proof (induction evs arbitrary: s)
  case Nil
  then show ?case by (simp add: run_def)
next
  case (Cons e evs)
  from Cons.prems have st: "core (step s e) = core s \<and> calls (step s e) = calls s"
    using single_slide_step by simp
  then have "length (slides (step s e)) = 1" "activeIndex (step s e) = 0"
    using Cons.prems by (simp_all add: core_def)
  from Cons.IH [OF this] Cons.prems st show ?case by (simp add: run_def)
qed

text \<open>
  C8. With exactly one slide (active index 0), the targets computed for next and prev
  are the active index itself, and whatever sequence of requests arrives (buttons, keys,
  autoplay time), nothing of the transition is touched: \<open>activeIndex\<close>, \<open>isAnimating\<close>,
  the pending timelines, the slides and the record of animator calls stay as they were.
\<close>

theorem single_slide_never_transitions:
  assumes "length (slides s) = 1" and "activeIndex s = 0" and "list_all navigation evs"
  shows "js_rem (activeIndex s + 1) (int (length (slides s))) = activeIndex s
       \<and> js_rem (activeIndex s - 1 + int (length (slides s))) (int (length (slides s))) = activeIndex s
       \<and> activeIndex (run s evs) = activeIndex s
       \<and> isAnimating (run s evs) = isAnimating s
       \<and> timelines (run s evs) = timelines s
       \<and> slides (run s evs) = slides s
       \<and> calls (run s evs) = calls s"
  using single_slide_run [OF assms] assms(1,2) by (simp add: core_def single_slide_targets)

theorem single_slide_never_transitions_witness:
  "length (slides solo) = 1 \<and> activeIndex solo = 0
   \<and> list_all navigation [ClickNext, ClickPrev, ClickNext, KeyDown ''ArrowRight'' None, Elapse 4000]
   \<and> activeIndex (run solo [ClickNext, ClickPrev, ClickNext, KeyDown ''ArrowRight'' None, Elapse 4000]) = 0
   \<and> timelines (run solo [ClickNext, ClickPrev, ClickNext, KeyDown ''ArrowRight'' None, Elapse 4000]) = []
   \<and> calls (run solo [ClickNext, ClickPrev, ClickNext, KeyDown ''ArrowRight'' None, Elapse 4000]) = []"
  using single_slide_never_transitions
          [of solo "[ClickNext, ClickPrev, ClickNext, KeyDown ''ArrowRight'' None, Elapse 4000]"]
  by (simp add: solo_def demo_def)

subsection \<open>While a transition is in progress\<close>

lemma pauseAutoplay_frame [simp]:
  "slides (pauseAutoplay s) = slides s"
  "activeIndex (pauseAutoplay s) = activeIndex s"
  "isAnimating (pauseAutoplay s) = isAnimating s"
  "timelines (pauseAutoplay s) = timelines s"
  "calls (pauseAutoplay s) = calls s"
  by (simp_all add: pauseAutoplay_def split: option.splits)

lemma resumeAutoplay_frame [simp]:
  "slides (resumeAutoplay s) = slides s"
  "activeIndex (resumeAutoplay s) = activeIndex s"
  "isAnimating (resumeAutoplay s) = isAnimating s"
  "timelines (resumeAutoplay s) = timelines s"
  "calls (resumeAutoplay s) = calls s"
  by (simp_all add: resumeAutoplay_def split: option.splits)

lemma passive_step_core:
  assumes "e \<in> {ScrollEnter, ScrollEnterBack, ScrollLeave, ScrollLeaveBack} \<or> e = MatchMedia b \<or> e = Split i j"
  shows "core (step s e) = core s"
  using assms
  by (auto simp: step_def core_def onEnter_def onEnterBack_def onLeave_def onLeaveBack_def onMatchMedia_def)

lemma busy_step_core:
  assumes "isAnimating s" and "\<not> completion e"
  shows "core (step s e) = core s"
proof (cases e)
  case ClickNext
  then show ?thesis using assms
    by (simp add: step_def btnNext_click_def resetAutoplay_eq goTo_busy_or_same core_def)
next
  case ClickPrev
  then show ?thesis using assms
    by (simp add: step_def btnPrev_click_def resetAutoplay_eq goTo_busy_or_same core_def)
next
  case (KeyDown key t)
  then show ?thesis using assms
    by (simp add: step_def onKeyDown_def resetAutoplay_eq goTo_busy_or_same core_def)
next
  case (Elapse dt)
  then show ?thesis using assms
    by (simp add: step_def elapse_def autoplayTick_def core_def split: option.splits)
next
  case (TimelineComplete i)
  then show ?thesis using assms by simp
qed (simp_all add: passive_step_core)

lemma busy_run_core:
  "isAnimating s \<Longrightarrow> list_all (\<lambda>e. \<not> completion e) evs \<Longrightarrow> core (run s evs) = core s"
proof (induction evs arbitrary: s)
  case Nil
  then show ?case by (simp add: run_def)
next
  case (Cons e evs)
  then have c: "core (step s e) = core s" by (simp add: busy_step_core)
  then have "isAnimating (step s e)" using Cons.prems by (simp add: core_def)
  from Cons.IH [OF this] Cons.prems c show ?case by (simp add: run_def)
qed

lemma onComplete_in:
  assumes "in_range s (activeIndex s)" "in_range s t" "t \<noteq> activeIndex s"
  shows "onComplete t s =
     Done (s\<lparr>slides := (slides s)
                 [nat (activeIndex s) := (slides s ! nat (activeIndex s))\<lparr>cls_active := False, aria_hidden := True\<rparr>,
                  nat t := (slides s ! nat t)\<lparr>cls_active := True, aria_hidden := False\<rparr>],
             calls := calls s @ [GsapSet (Item (activeIndex s)) [AutoAlpha 0, PointerEvents ''none''],
                                 GsapSet (Item t) [AutoAlpha 1, PointerEvents ''auto'']],
             activeIndex := t,
             elCurrent := map_option (\<lambda>_. t + 1) (elCurrent s),
             isAnimating := False\<rparr>)"
proof -
  define s1 where "s1 = s\<lparr>slides := (slides s)[nat (activeIndex s) := (slides s ! nat (activeIndex s))\<lparr>cls_active := False, aria_hidden := True\<rparr>],
             calls := calls s @ [GsapSet (Item (activeIndex s)) [AutoAlpha 0, PointerEvents ''none'']]\<rparr>"
  have a: "setSlideState (activeIndex s) False s = Done s1"
    using assms(1) by (simp add: setSlideState_in s1_def)
  have r1: "in_range s1 t" using assms(2) by (simp add: in_range_def s1_def)
  have ne: "nat t \<noteq> nat (activeIndex s)" using assms unfolding in_range_def by linarith
  have b: "setSlideState t True s1 = Done (s1\<lparr>slides := (slides s1)[nat t := (slides s1 ! nat t)\<lparr>cls_active := True, aria_hidden := False\<rparr>],
             calls := calls s1 @ [GsapSet (Item t) [AutoAlpha 1, PointerEvents ''auto'']]\<rparr>)"
    using r1 by (simp add: setSlideState_in)
  show ?thesis
    unfolding onComplete_def a and_then.simps b
    using ne by (cases "elCurrent s") (simp_all add: s1_def updateCounter_def)
qed


lemmas handler_defs =
  run_def step_def elapse_def autoplayTick_def timelineComplete_def onComplete_def
  btnNext_click_def btnPrev_click_def onKeyDown_def isTypingTarget_def
  onEnter_def onEnterBack_def onLeave_def onLeaveBack_def onMatchMedia_def onSplit_def
  resetAutoplay_def startAutoplay_def pauseAutoplay_def resumeAutoplay_def
  goTo_def setSlideState_def updateCounter_def slide_at_def gsap_call_def js_rem_def Let_def

subsection \<open>The completion callback\<close>

text \<open>
  C2 as stated does not hold: the completion callback does not reschedule the autoplay
  timer. On the four-slide carousel with autoplay enabled (4000 ms), the autoplay fires,
  starts the transition to slide 1 and stores a new delayed call; 900 ms later the
  timeline completes. The delayed call then still has its 3100 ms: it is the one that
  was there before the callback ran, not a new one with the full duration.
\<close>

theorem onComplete_leaves_timer_counterexample:
  "autoplayEnabled demo
   \<and> isAnimating (run demo [Elapse 4000, Elapse 900])
   \<and> timelines (run demo [Elapse 4000, Elapse 900]) = [1]
   \<and> \<not> isAnimating (run demo [Elapse 4000, Elapse 900, TimelineComplete 0])
   \<and> activeIndex (run demo [Elapse 4000, Elapse 900, TimelineComplete 0]) = 1
   \<and> autoplayCall (run demo [Elapse 4000, Elapse 900])
       = Some \<lparr>remaining = 3100, paused = False, live = True\<rparr>
   \<and> autoplayCall (run demo [Elapse 4000, Elapse 900, TimelineComplete 0])
       = Some \<lparr>remaining = 3100, paused = False, live = True\<rparr>
   \<and> autoplayCall (run demo [Elapse 4000, Elapse 900, TimelineComplete 0])
       \<noteq> Some \<lparr>remaining = autoplayDuration demo, paused = False, live = True\<rparr>"
  by (simp add: demo_def handler_defs)

text \<open>
  C2, amended. For every transition that \<open>goTo(t)\<close> starts (no transition in progress,
  \<open>t\<close> another slide of the list), \<open>goTo\<close> returns with one more timeline waiting,
  and whatever callbacks run before that timeline completes (anything but a completion),
  its completion callback returns normally and has marked the outgoing slide inactive and
  the target slide active, set \<open>activeIndex\<close> to \<open>t\<close>, shown \<open>t + 1\<close> in the counter when
  there is one, set \<open>isAnimating\<close> to false, and left the autoplay delayed call exactly as
  it was when the callback began.
\<close>

theorem completion_callback_effects:
  assumes "in_range s (activeIndex s)" and "\<not> isAnimating s"
    and "in_range s t" and "t \<noteq> activeIndex s"
    and "list_all (\<lambda>e. \<not> completion e) evs"
  shows "\<exists>s1. goTo t s = Done s1 \<and> timelines s1 = timelines s @ [t]
          \<and> (\<exists>s2. timelineComplete (length (timelines s)) (run s1 evs) = Done s2
                \<and> slides s2 = (slides s)
                     [nat (activeIndex s) :=
                        (slides s ! nat (activeIndex s))\<lparr>cls_active := False, aria_hidden := True\<rparr>,
                      nat t := (slides s ! nat t)\<lparr>cls_active := True, aria_hidden := False\<rparr>]
                \<and> activeIndex s2 = t
                \<and> \<not> isAnimating s2
                \<and> elCurrent s2 = map_option (\<lambda>_. t + 1) (elCurrent (run s1 evs))
                \<and> timelines s2 = timelines s
                \<and> autoplayCall s2 = autoplayCall (run s1 evs))"
proof -
  define s1 where "s1 = s\<lparr>isAnimating := True, timelines := timelines s @ [t],
                   calls := calls (state_of (goTo t s))\<rparr>"
  have g: "goTo t s = Done s1"
    unfolding s1_def using assms(1-4) by (intro goTo_start) simp_all
  define u where "u = run s1 evs"
  have "isAnimating s1" by (simp add: s1_def)
  from busy_run_core [OF this assms(5)] have "core u = core s1" by (simp add: u_def)
  then have cu: "slides u = slides s" "activeIndex u = activeIndex s" "timelines u = timelines s @ [t]"
    by (simp_all add: core_def s1_def)
  define v where "v = u\<lparr>timelines := take (length (timelines s)) (timelines u)
                                      @ drop (Suc (length (timelines s))) (timelines u)\<rparr>"
  have tc: "timelineComplete (length (timelines s)) u = onComplete t v"
    by (simp add: timelineComplete_def cu v_def)
  have cv: "slides v = slides s" "activeIndex v = activeIndex s" "timelines v = timelines s"
    "elCurrent v = elCurrent u" "autoplayCall v = autoplayCall u"
    by (simp_all add: v_def cu)
  have "in_range v (activeIndex v)" "in_range v t" "t \<noteq> activeIndex v"
    using assms(1,3,4) by (simp_all add: in_range_def cv)
  from onComplete_in [OF this] tc
  have "\<exists>s2. timelineComplete (length (timelines s)) u = Done s2
                \<and> slides s2 = (slides s)
                     [nat (activeIndex s) :=
                        (slides s ! nat (activeIndex s))\<lparr>cls_active := False, aria_hidden := True\<rparr>,
                      nat t := (slides s ! nat t)\<lparr>cls_active := True, aria_hidden := False\<rparr>]
                \<and> activeIndex s2 = t
                \<and> \<not> isAnimating s2
                \<and> elCurrent s2 = map_option (\<lambda>_. t + 1) (elCurrent u)
                \<and> timelines s2 = timelines s
                \<and> autoplayCall s2 = autoplayCall u"
    by (simp add: cv)
  moreover have "timelines s1 = timelines s @ [t]" by (simp add: s1_def)
  ultimately show ?thesis using g unfolding u_def by blast
qed

theorem completion_callback_effects_witness:
  "in_range demo (activeIndex demo) \<and> \<not> isAnimating demo \<and> in_range demo 2 \<and> 2 \<noteq> activeIndex demo
   \<and> list_all (\<lambda>e. \<not> completion e) [ClickNext, Elapse 300, ScrollLeave]
   \<and> (\<exists>s2. timelineComplete 0 (run (state_of (goTo 2 demo)) [ClickNext, Elapse 300, ScrollLeave]) = Done s2
         \<and> activeIndex s2 = 2 \<and> \<not> isAnimating s2 \<and> elCurrent s2 = Some 3
         \<and> map cls_active (slides s2) = [False, False, True, False]
         \<and> autoplayCall s2 = Some \<lparr>remaining = 3700, paused = True, live = True\<rparr>)"
  using completion_callback_effects [of demo 2 "[ClickNext, Elapse 300, ScrollLeave]"]
  by (simp add: demo_def handler_defs in_range_def)

subsection \<open>Reduced motion\<close>

lemma createSplitInstances_calls:
  assumes "i < length (slides s)" "j < splitTargets (slides s ! i)"
  shows "SplitTextCreate (int i) j \<in> set (calls (createSplitInstances s))"
  using forEach_createInstances_calls [of s "[0..<length (slides s)]"] assms
  by (simp add: createSplitInstances_def)

lemma init_calls:
  assumes "w_items w = Some items" "items \<noteq> []"
  shows "\<exists>s1. initLineRevealTestimonials w =
           Some (Done (startAutoplay (createSplitInstances
             (if w_reduce w then onMatchMedia True (updateCounter s1) else updateCounter s1))))
         \<and> length (slides s1) = length items
         \<and> (\<forall>i<length items. splitTargets (slides s1 ! i) = splitTargets (slide_of_item (items ! i)))"
proof -
  define s0 where "s0 = declared w items"
  have len0: "length (slides s0) = length items" by (simp add: s0_def declared_def Let_def)
  have "\<forall>i\<in>set [0..<length (slides s0)]. i < length (slides s0)" by simp
  from forEach_setSlideState_Done [OF this] obtain s1 where
    r: "forEach_setSlideState [0..<length (slides s0)] s0 = Done s1"
    and l: "length (slides s1) = length (slides s0)"
    and m: "\<forall>j<length (slides s0). slides s1 ! j =
            (if j \<in> set [0..<length (slides s0)]
             then (slides s0 ! j)\<lparr>cls_active := (int j = activeIndex s0),
                                    aria_hidden := \<not> (int j = activeIndex s0)\<rparr>
             else slides s0 ! j)"
    by blast
  have "initLineRevealTestimonials w =
           Some (Done (startAutoplay (createSplitInstances
             (if w_reduce w then onMatchMedia True (updateCounter s1) else updateCounter s1))))"
    using assms r by (simp add: initLineRevealTestimonials_def s0_def [symmetric] Let_def)
  moreover have "\<forall>i<length items. splitTargets (slides s1 ! i) = splitTargets (slide_of_item (items ! i))"
    using m len0 by (simp add: s0_def declared_def Let_def)
  ultimately show ?thesis using l len0 by auto
qed

text \<open>
  C7 as stated does not hold in its last part: line splitting is done in reduced-motion
  mode too. The four-slide document with the media query \<open>(prefers-reduced-motion:
  reduce)\<close> matching is initialised with \<open>reduceMotion\<close> true, and \<open>SplitText.create\<close> has
  been called for each of its four split targets.
\<close>

theorem reduced_motion_still_splits_counterexample:
  "initLineRevealTestimonials (demo_markup\<lparr>w_reduce := True\<rparr>) =
     Some (Done (demo\<lparr>reduceMotion := True,
                      calls := [GsapSet (Item 0) [AutoAlpha 1, PointerEvents ''auto''],
                                GsapSet (Item 1) [AutoAlpha 0, PointerEvents ''none''],
                                GsapSet (Item 2) [AutoAlpha 0, PointerEvents ''none''],
                                GsapSet (Item 3) [AutoAlpha 0, PointerEvents ''none''],
                                SplitTextCreate 0 0, SplitTextCreate 0 1,
                                SplitTextCreate 1 0, SplitTextCreate 3 0]\<rparr>))"
  by (simp add: initLineRevealTestimonials_def declared_def demo_markup_def demo_def utf16_def
     autoplayEnabled_of_def autoplayDuration_of_def parseInt10_def signed_digits_def
     is_white_space_def is_digit_def slide_of_item_def upt_rec setSlideState_def slide_at_def
     gsap_call_def updateCounter_def createSplitInstances_def onSplit_def startAutoplay_def onMatchMedia_def Let_def)

text \<open>
  C7, amended. A transition started while \<open>reduceMotion\<close> is true (no transition in
  progress, from a slide of the list to another one) makes exactly three animator calls:
  the timeline, a tween of the outgoing item to opacity 0 and a tween of the incoming
  item from opacity 0 to 1, both 0.4 s with the same ease at position 0; nothing is asked
  for lines or clip paths. An \<open>onSplit\<close> callback sets nothing in this mode. The SplitText
  instances themselves are created at initialisation for every split target of every
  slide, in this mode as in the other.
\<close>

theorem reduced_motion_crossfade:
  "(reduceMotion s \<and> \<not> isAnimating s \<and> in_range s (activeIndex s) \<and> in_range s t
      \<and> t \<noteq> activeIndex s \<longrightarrow>
      goTo t s =
        Done (s\<lparr>isAnimating := True,
                timelines := timelines s @ [t],
                calls := calls s @
                  [GsapTimeline t,
                   TlTo (Item (activeIndex s)) [AutoAlpha 0] 400 ''power2'' None ''0'',
                   TlFromTo (Item t) [AutoAlpha 0] [AutoAlpha 1] 400 ''power2'' ''0'']\<rparr>))
   \<and> (reduceMotion s \<longrightarrow> onSplit i j s = s)
   \<and> (w_items w = Some items \<and> items \<noteq> [] \<and> w_reduce w \<longrightarrow>
        (\<exists>s0. initLineRevealTestimonials w = Some (Done s0) \<and> reduceMotion s0
           \<and> (\<forall>i<length items. \<forall>j<splitTargets (slide_of_item (items ! i)).
                 SplitTextCreate (int i) j \<in> set (calls s0))))"
proof (intro conjI impI)
  assume "reduceMotion s \<and> \<not> isAnimating s \<and> in_range s (activeIndex s) \<and> in_range s t
      \<and> t \<noteq> activeIndex s"
  then show "goTo t s =
        Done (s\<lparr>isAnimating := True,
                timelines := timelines s @ [t],
                calls := calls s @
                  [GsapTimeline t,
                   TlTo (Item (activeIndex s)) [AutoAlpha 0] 400 ''power2'' None ''0'',
                   TlFromTo (Item t) [AutoAlpha 0] [AutoAlpha 1] 400 ''power2'' ''0'']\<rparr>)"
    by (simp add: goTo_def in_range_def slide_at_in gsap_call_def Let_def)
next
  assume "reduceMotion s"
  then show "onSplit i j s = s" by (simp add: onSplit_def split: option.splits)
next
  assume h: "w_items w = Some items \<and> items \<noteq> [] \<and> w_reduce w"
  then obtain s1 where
    i: "initLineRevealTestimonials w =
           Some (Done (startAutoplay (createSplitInstances (onMatchMedia True (updateCounter s1)))))"
    and l: "length (slides s1) = length items"
    and sp: "\<forall>i<length items. splitTargets (slides s1 ! i) = splitTargets (slide_of_item (items ! i))"
    using init_calls [of w items] by auto
  let ?u = "onMatchMedia True (updateCounter s1)"
  have u: "slides ?u = slides s1"
    by (simp add: onMatchMedia_def updateCounter_def split: option.splits)
  have "\<forall>i<length items. \<forall>j<splitTargets (slide_of_item (items ! i)).
                 SplitTextCreate (int i) j \<in> set (calls (startAutoplay (createSplitInstances ?u)))"
    using createSplitInstances_calls [of _ ?u] l sp by (simp add: u)
  moreover have "reduceMotion (startAutoplay (createSplitInstances ?u))"
    by (simp add: onMatchMedia_def)
  ultimately show "\<exists>s0. initLineRevealTestimonials w = Some (Done s0) \<and> reduceMotion s0
           \<and> (\<forall>i<length items. \<forall>j<splitTargets (slide_of_item (items ! i)).
                 SplitTextCreate (int i) j \<in> set (calls s0))"
    using i by blast
qed


theorem reduced_motion_crossfade_witness:
  "reduceMotion (demo\<lparr>reduceMotion := True\<rparr>) \<and> \<not> isAnimating (demo\<lparr>reduceMotion := True\<rparr>)
   \<and> in_range (demo\<lparr>reduceMotion := True\<rparr>) 0 \<and> in_range (demo\<lparr>reduceMotion := True\<rparr>) 3
   \<and> goTo 3 (demo\<lparr>reduceMotion := True\<rparr>) =
        Done (demo\<lparr>reduceMotion := True, isAnimating := True, timelines := [3],
                calls := [GsapTimeline 3,
                   TlTo (Item 0) [AutoAlpha 0] 400 ''power2'' None ''0'',
                   TlFromTo (Item 3) [AutoAlpha 0] [AutoAlpha 1] 400 ''power2'' ''0'']\<rparr>)
   \<and> onSplit 0 1 (demo\<lparr>reduceMotion := True\<rparr>) = demo\<lparr>reduceMotion := True\<rparr>
   \<and> w_items (demo_markup\<lparr>w_reduce := True\<rparr>) \<noteq> None
   \<and> (\<exists>s0. initLineRevealTestimonials (demo_markup\<lparr>w_reduce := True\<rparr>) = Some (Done s0)
          \<and> reduceMotion s0 \<and> SplitTextCreate 0 1 \<in> set (calls s0))"
proof -
  let ?s = "demo\<lparr>reduceMotion := True\<rparr>"
  let ?w = "demo_markup\<lparr>w_reduce := True\<rparr>"
  let ?items = "the (w_items demo_markup)"
  note th = reduced_motion_crossfade [of ?s 3 0 1 ?w ?items]
  have a: "reduceMotion ?s \<and> \<not> isAnimating ?s \<and> in_range ?s (activeIndex ?s) \<and> in_range ?s 3
      \<and> 3 \<noteq> activeIndex ?s"
    by (simp add: demo_def in_range_def)
  have b: "w_items ?w = Some ?items \<and> ?items \<noteq> [] \<and> w_reduce ?w"
    by (simp add: demo_markup_def)
  from th a have g: "goTo 3 ?s =
        Done (demo\<lparr>reduceMotion := True, isAnimating := True, timelines := [3],
                calls := [GsapTimeline 3,
                   TlTo (Item 0) [AutoAlpha 0] 400 ''power2'' None ''0'',
                   TlFromTo (Item 3) [AutoAlpha 0] [AutoAlpha 1] 400 ''power2'' ''0'']\<rparr>)"
    by (simp add: demo_def)
  from th a have o: "onSplit 0 1 ?s = ?s" by blast
  from th b obtain s0 where s0: "initLineRevealTestimonials ?w = Some (Done s0)" "reduceMotion s0"
    and all: "\<forall>i<length ?items. \<forall>j<splitTargets (slide_of_item (?items ! i)).
                 SplitTextCreate (int i) j \<in> set (calls s0)"
    by blast
  have "(0::nat) < length ?items" "(1::nat) < splitTargets (slide_of_item (?items ! 0))"
    by (simp_all add: demo_markup_def slide_of_item_def)
  with all have "SplitTextCreate (int 0) 1 \<in> set (calls s0)" by blast
  then have "SplitTextCreate 0 1 \<in> set (calls s0)" by simp
  with s0 g o a b show ?thesis by (simp add: demo_def in_range_def) blast
qed

subsection \<open>The invariant\<close>

lemma consistent_core:
  assumes "core s' = core s"
  shows "consistent s' = consistent s"
proof -
  from assms have f: "slides s' = slides s" "activeIndex s' = activeIndex s"
    "isAnimating s' = isAnimating s" "timelines s' = timelines s"
    by (simp_all add: core_def)
  have r: "\<And>k. in_range s' k = in_range s k" by (simp add: in_range_def f)
  show ?thesis by (simp add: consistent_def marks_ok_def pending_ok_def r f split: list.splits)
qed

lemma pending_ok_idle: "pending_ok s \<Longrightarrow> \<not> isAnimating s \<Longrightarrow> timelines s = []"
  by (simp add: pending_ok_def)

lemma pending_ok_busy:
  assumes "pending_ok s" "isAnimating s"
  shows "\<exists>k. timelines s = [k] \<and> in_range s k \<and> k \<noteq> activeIndex s"
proof (cases "timelines s")
  case Nil
  then show ?thesis using assms by (simp add: pending_ok_def)
next
  case (Cons k ks)
  then show ?thesis using assms by (cases ks) (simp_all add: pending_ok_def)
qed

lemma pending_ok_single:
  "isAnimating s \<Longrightarrow> timelines s = [k] \<Longrightarrow> in_range s k \<Longrightarrow> k \<noteq> activeIndex s \<Longrightarrow> pending_ok s"
  by (simp add: pending_ok_def)

lemma goTo_core:
  assumes "in_range s (activeIndex s)" "in_range s t"
  shows "\<exists>s'. goTo t s = Done s' \<and>
           core s' = (if isAnimating s \<or> t = activeIndex s then core s
                      else (slides s, activeIndex s, True, timelines s @ [t]))"
proof (cases "isAnimating s \<or> t = activeIndex s")
  case True
  then show ?thesis by (simp add: goTo_busy_or_same)
next
  case False
  define s' where "s' = s\<lparr>isAnimating := True, timelines := timelines s @ [t],
                   calls := calls (state_of (goTo t s))\<rparr>"
  have "goTo t s = Done s'"
    unfolding s'_def using False assms goTo_start by blast
  moreover have "core s' = (slides s, activeIndex s, True, timelines s @ [t])"
    by (simp add: s'_def core_def)
  ultimately show ?thesis using False by simp
qed

lemma goTo_consistent:
  assumes "consistent s" "in_range s t"
  shows "\<exists>s'. goTo t s = Done s' \<and> consistent s'"
proof -
  have a: "in_range s (activeIndex s)" using assms(1) by (simp add: consistent_def)
  from goTo_core [OF a assms(2)] obtain s' where
    g: "goTo t s = Done s'"
    and c: "core s' = (if isAnimating s \<or> t = activeIndex s then core s
                      else (slides s, activeIndex s, True, timelines s @ [t]))"
    by blast
  have "consistent s'"
  proof (cases "isAnimating s \<or> t = activeIndex s")
    case True
    then have "core s' = core s" using c by simp
    from consistent_core [OF this] assms(1) show ?thesis by simp
  next
    case False
    then have f: "slides s' = slides s" "activeIndex s' = activeIndex s" "isAnimating s'"
      "timelines s' = timelines s @ [t]"
      using c by (simp_all add: core_def)
    have "timelines s = []" using assms(1) False by (simp add: consistent_def pending_ok_def)
    then have "timelines s' = [t]" by (simp add: f)
    from pending_ok_single [OF f(3) this] assms(2) False have "pending_ok s'"
      by (simp add: in_range_def f)
    then show ?thesis
      using assms(1) by (simp add: consistent_def in_range_def marks_ok_def f)
  qed
  with g show ?thesis by blast
qed

lemma startAutoplay_core [simp]: "core (startAutoplay s) = core s"
  by (simp add: core_def)

lemma consistent_startAutoplay [simp]: "consistent (startAutoplay s) = consistent s"
  by (rule consistent_core) simp

lemma next_consistent:
  assumes "consistent s"
  shows "\<exists>s'. goTo (js_rem (activeIndex s + 1) (int (length (slides s)))) s = Done s' \<and> consistent s'"
proof -
  have a: "in_range s (activeIndex s)" using assms by (simp add: consistent_def)
  show ?thesis using goTo_consistent [OF assms next_target(2) [OF a]] next_target(1) [OF a] by simp
qed

lemma prev_consistent:
  assumes "consistent s"
  shows "\<exists>s'. goTo (js_rem (activeIndex s - 1 + int (length (slides s))) (int (length (slides s)))) s
            = Done s' \<and> consistent s'"
proof -
  have a: "in_range s (activeIndex s)" using assms by (simp add: consistent_def)
  show ?thesis using goTo_consistent [OF assms prev_target(2) [OF a]] prev_target(1) [OF a] by simp
qed

lemma complete_consistent:
  assumes "consistent s" "i < length (timelines s)"
  shows "\<exists>s'. timelineComplete i s = Done s' \<and> consistent s' \<and> \<not> isAnimating s'"
proof -
  have p: "pending_ok s" using assms(1) by (simp add: consistent_def)
  have an: "isAnimating s" using pending_ok_idle [OF p] assms(2) by (cases "isAnimating s") auto
  from pending_ok_busy [OF p an] obtain k
    where k: "timelines s = [k]" "in_range s k" "k \<noteq> activeIndex s"
    by blast
  then have i0: "i = 0" using assms(2) by simp
  define v where "v = s\<lparr>timelines := []\<rparr>"
  have tc: "timelineComplete i s = onComplete k v"
    using k i0 by (simp add: timelineComplete_def v_def)
  have a: "in_range s (activeIndex s)" and m: "marks_ok s" using assms(1) by (simp_all add: consistent_def)
  have rv: "in_range v (activeIndex v)" "in_range v k" "k \<noteq> activeIndex v"
    using a k by (simp_all add: v_def in_range_def)
  define s' where "s' = v\<lparr>slides := (slides v)
                 [nat (activeIndex v) := (slides v ! nat (activeIndex v))\<lparr>cls_active := False, aria_hidden := True\<rparr>,
                  nat k := (slides v ! nat k)\<lparr>cls_active := True, aria_hidden := False\<rparr>],
             calls := calls v @ [GsapSet (Item (activeIndex v)) [AutoAlpha 0, PointerEvents ''none''],
                                 GsapSet (Item k) [AutoAlpha 1, PointerEvents ''auto'']],
             activeIndex := k,
             elCurrent := map_option (\<lambda>_. k + 1) (elCurrent v),
             isAnimating := False\<rparr>"
  have oc: "onComplete k v = Done s'"
    unfolding s'_def by (rule onComplete_in [OF rv])
  have f: "activeIndex s' = k" "\<not> isAnimating s'" "timelines s' = []"
    "length (slides s') = length (slides s)"
    by (simp_all add: s'_def v_def)
  have sl: "slides s' = (slides s)
                 [nat (activeIndex s) := (slides s ! nat (activeIndex s))\<lparr>cls_active := False, aria_hidden := True\<rparr>,
                  nat k := (slides s ! nat k)\<lparr>cls_active := True, aria_hidden := False\<rparr>]"
    by (simp add: s'_def v_def)
  have "marks_ok s'"
    unfolding marks_ok_iff
  proof (intro allI impI)
    fix j assume j: "j < length (slides s')"
    then have js: "j < length (slides s)" using f by simp
    from m js have old: "cls_active (slides s ! j) \<longleftrightarrow> int j = activeIndex s"
      by (simp add: marks_ok_iff)
    show "cls_active (slides s' ! j) \<longleftrightarrow> int j = activeIndex s'"
    proof (cases "j = nat k")
      case True
      then show ?thesis using js k(2) by (simp add: sl f in_range_def)
    next
      case False
      note nk = this
      then have jk: "int j \<noteq> k" by auto
      show ?thesis
      proof (cases "j = nat (activeIndex s)")
        case True
        then show ?thesis using js nk jk by (simp add: sl f)
      next
        case False
        then have "int j \<noteq> activeIndex s" by auto
        then show ?thesis using False nk jk js old by (simp add: sl f)
      qed
    qed
  qed
  moreover have "in_range s' (activeIndex s')" using k(2) by (simp add: in_range_def f)
  moreover have "pending_ok s'" by (simp add: pending_ok_def f)
  ultimately have "consistent s'" by (simp add: consistent_def)
  with tc oc f show ?thesis by simp
qed


lemma autoplayCall_update_core [simp]: "core (s\<lparr>autoplayCall := x\<rparr>) = core s"
  by (simp add: core_def)

lemma resetAutoplay_consistent: "consistent s \<Longrightarrow> consistent (resetAutoplay s)"
  by (simp add: resetAutoplay_eq)

lemma btnNext_click_consistent:
  assumes "consistent s"
  shows "\<exists>s'. btnNext_click s = Done s' \<and> consistent s'"
  using next_consistent [OF resetAutoplay_consistent [OF assms]] by (simp add: btnNext_click_def Let_def)

lemma btnPrev_click_consistent:
  assumes "consistent s"
  shows "\<exists>s'. btnPrev_click s = Done s' \<and> consistent s'"
  using prev_consistent [OF resetAutoplay_consistent [OF assms]] by (simp add: btnPrev_click_def Let_def)

lemma onKeyDown_consistent:
  assumes "consistent s"
  shows "\<exists>s'. onKeyDown key t s = Done s' \<and> consistent s'"
proof (cases "\<not> isInView s \<or> isTypingTarget t")
  case True
  then show ?thesis using assms by (auto simp: onKeyDown_def)
next
  case False
  note active = this
  show ?thesis
  proof (cases "key = ''ArrowRight''")
    case True
    from next_consistent [OF resetAutoplay_consistent [OF assms]] obtain s' where
      "goTo (js_rem (activeIndex (resetAutoplay s) + 1) (int (length (slides (resetAutoplay s)))))
         (resetAutoplay s) = Done s'" "consistent s'" by blast
    then show ?thesis using True active by (simp add: onKeyDown_def Let_def)
  next
    case False
    note nr = this
    show ?thesis
    proof (cases "key = ''ArrowLeft''")
      case True
      from prev_consistent [OF resetAutoplay_consistent [OF assms]] obtain s' where
        "goTo (js_rem (activeIndex (resetAutoplay s) - 1 + int (length (slides (resetAutoplay s))))
                (int (length (slides (resetAutoplay s)))))
           (resetAutoplay s) = Done s'" "consistent s'" by blast
      then show ?thesis using True nr active by (simp add: onKeyDown_def Let_def)
    next
      case False
      then show ?thesis using nr active assms by (simp add: onKeyDown_def)
    qed
  qed
qed

lemma autoplayTick_consistent:
  assumes "consistent s"
  shows "\<exists>s'. autoplayTick s = Done s' \<and> consistent s'"
proof (cases "\<not> isInView s \<or> isAnimating s")
  case True
  then show ?thesis using assms by (auto simp: autoplayTick_def)
next
  case False
  from next_consistent [OF assms] obtain s' where
    "goTo (js_rem (activeIndex s + 1) (int (length (slides s)))) s = Done s'" "consistent s'" by blast
  then show ?thesis using False by (simp add: autoplayTick_def)
qed

lemma elapse_consistent:
  assumes "consistent s"
  shows "\<exists>s'. elapse dt s = Done s' \<and> consistent s'"
proof (cases "autoplayCall s")
  case None
  then show ?thesis using assms by (simp add: elapse_def)
next
  case (Some t)
  show ?thesis
  proof (cases "paused t \<or> \<not> live t")
    case True
    then show ?thesis using Some assms by (auto simp: elapse_def)
  next
    case False
    note running = this
    show ?thesis
    proof (cases "int dt < remaining t")
      case True
      have "consistent (s\<lparr>autoplayCall := Some (t\<lparr>remaining := remaining t - int dt\<rparr>)\<rparr>)"
        using assms consistent_core [of "s\<lparr>autoplayCall := Some (t\<lparr>remaining := remaining t - int dt\<rparr>)\<rparr>" s]
        by simp
      then show ?thesis using True running Some by (simp add: elapse_def)
    next
      case False
      have "consistent (s\<lparr>autoplayCall := Some (t\<lparr>remaining := 0, live := False\<rparr>)\<rparr>)"
        using assms consistent_core [of "s\<lparr>autoplayCall := Some (t\<lparr>remaining := 0, live := False\<rparr>)\<rparr>" s]
        by simp
      from autoplayTick_consistent [OF this] show ?thesis using False running Some by (simp add: elapse_def)
    qed
  qed
qed

lemma handle_consistent:
  assumes "consistent s"
  shows "\<exists>s'. handle e s = Done s' \<and> consistent s'"
proof (cases e)
  case ClickNext
  then show ?thesis using assms btnNext_click_consistent [OF assms] by simp
next
  case ClickPrev
  then show ?thesis using assms btnPrev_click_consistent [OF assms] by simp
next
  case (KeyDown key t)
  then show ?thesis using onKeyDown_consistent [OF assms] by simp
next
  case (Elapse dt)
  then show ?thesis using elapse_consistent [OF assms] by simp
next
  case (TimelineComplete i)
  show ?thesis
  proof (cases "i < length (timelines s)")
    case True
    from complete_consistent [OF assms this] show ?thesis using TimelineComplete by auto
  next
    case False
    then show ?thesis using TimelineComplete assms by (simp add: timelineComplete_def)
  qed
next
  case ScrollEnter
  then have "core (step s e) = core s" by (simp add: passive_step_core)
  from consistent_core [OF this] show ?thesis using ScrollEnter assms by (simp add: step_def)
next
  case ScrollEnterBack
  then have "core (step s e) = core s" by (simp add: passive_step_core)
  from consistent_core [OF this] show ?thesis using ScrollEnterBack assms by (simp add: step_def)
next
  case ScrollLeave
  then have "core (step s e) = core s" by (simp add: passive_step_core)
  from consistent_core [OF this] show ?thesis using ScrollLeave assms by (simp add: step_def)
next
  case ScrollLeaveBack
  then have "core (step s e) = core s" by (simp add: passive_step_core)
  from consistent_core [OF this] show ?thesis using ScrollLeaveBack assms by (simp add: step_def)
next
  case (MatchMedia b)
  then have "core (step s e) = core s" by (simp add: passive_step_core)
  from consistent_core [OF this] show ?thesis using MatchMedia assms by (simp add: step_def)
next
  case (Split i j)
  then have "core (step s e) = core s" by (simp add: passive_step_core)
  from consistent_core [OF this] show ?thesis using Split assms by (simp add: step_def)
qed

lemma consistent_step: "consistent s \<Longrightarrow> consistent (step s e)"
  using handle_consistent [of s e] by (auto simp: step_def)

lemma consistent_run: "consistent s \<Longrightarrow> consistent (run s evs)"
proof (induction evs arbitrary: s)
  case Nil
  then show ?case by (simp add: run_def)
next
  case (Cons e evs)
  from Cons.IH [OF consistent_step [OF Cons.prems]] show ?case by (simp add: run_def)
qed

lemma filter_none: "(\<forall>j<length ys. \<not> P (ys ! j)) \<Longrightarrow> filter P ys = []"
  by (simp add: filter_empty_conv all_set_conv_all_nth)

lemma one_marked:
  assumes "a < length xs" and "\<forall>j<length xs. P (xs ! j) \<longleftrightarrow> j = a"
  shows "length (filter P xs) = 1"
proof -
  have xs: "xs = take a xs @ xs ! a # drop (Suc a) xs"
    using assms(1) by (rule id_take_nth_drop)
  have "filter P (take a xs) = []"
    using assms by (intro filter_none) simp
  moreover have "filter P (drop (Suc a) xs) = []"
    using assms by (intro filter_none) simp
  moreover have "P (xs ! a)" using assms by simp
  ultimately have "filter P (take a xs @ xs ! a # drop (Suc a) xs) = [xs ! a]" by simp
  then show ?thesis using xs by simp
qed

lemma consistent_one_active:
  assumes "consistent s"
  shows "one_active s \<and> cls_active (slides s ! nat (activeIndex s))"
proof -
  have a: "nat (activeIndex s) < length (slides s)" "0 \<le> activeIndex s"
    using assms by (simp_all add: consistent_def in_range_def nat_less_iff)
  have "\<forall>j<length (slides s). cls_active (slides s ! j) \<longleftrightarrow> j = nat (activeIndex s)"
    using assms a(2) by (auto simp: consistent_def marks_ok_iff)
  from one_marked [OF a(1) this] this a(1) show ?thesis by (simp add: one_active_def)
qed


lemma init_demo_calls:
  "initLineRevealTestimonials demo_markup =
     Some (Done (demo\<lparr>calls := [GsapSet (Item 0) [AutoAlpha 1, PointerEvents ''auto''],
                                GsapSet (Item 1) [AutoAlpha 0, PointerEvents ''none''],
                                GsapSet (Item 2) [AutoAlpha 0, PointerEvents ''none''],
                                GsapSet (Item 3) [AutoAlpha 0, PointerEvents ''none''],
                                SplitTextCreate 0 0,
                                GsapSet (InstanceLines 0 0) [YPercent 0],
                                GsapSet (Image 0) [ClipPath ''circle(50% at 50% 50%)''],
                                SplitTextCreate 0 1,
                                GsapSet (InstanceLines 0 1) [YPercent 0],
                                GsapSet (Image 0) [ClipPath ''circle(50% at 50% 50%)''],
                                SplitTextCreate 1 0,
                                GsapSet (InstanceLines 1 0) [YPercent 110],
                                SplitTextCreate 3 0,
                                GsapSet (InstanceLines 3 0) [YPercent 110],
                                GsapSet (Image 3) [ClipPath ''circle(0% at 50% 50%)'']]\<rparr>))"
  by (simp add: initLineRevealTestimonials_def declared_def demo_markup_def demo_def utf16_def
     autoplayEnabled_of_def autoplayDuration_of_def parseInt10_def signed_digits_def
     is_white_space_def is_digit_def slide_of_item_def upt_rec setSlideState_def slide_at_def
     gsap_call_def updateCounter_def createSplitInstances_def onSplit_def startAutoplay_def Let_def)

subsection \<open>Exactly one active slide\<close>

text \<open>
  C3. In every state that an initialised carousel reaches, by whatever sequence of
  callbacks, exactly one slide carries the class \<open>is--active\<close>, and it is the slide at
  \<open>activeIndex\<close>; this holds between transitions and also while one runs, since the
  marking changes only in the completion callback. And whenever a timeline is waiting to
  complete, its completion callback returns normally and leaves \<open>isAnimating\<close> false and
  exactly one slide active. (Initialisation itself returns normally.)
\<close>

theorem exactly_one_active:
  assumes "initLineRevealTestimonials w = Some r"
  shows "\<exists>s0. r = Done s0
          \<and> one_active (run s0 evs)
          \<and> cls_active (slides (run s0 evs) ! nat (activeIndex (run s0 evs)))
          \<and> (\<forall>i<length (timelines (run s0 evs)).
                \<exists>s'. timelineComplete i (run s0 evs) = Done s' \<and> \<not> isAnimating s' \<and> one_active s')"
proof -
  from assms obtain items where it: "w_items w = Some items" "items \<noteq> []"
    by (auto simp: initLineRevealTestimonials_def split: option.splits if_splits)
  from init_result [OF it] assms obtain s0 where s0: "r = Done s0" "consistent s0"
    by auto
  have i: "consistent (run s0 evs)" by (rule consistent_run [OF s0(2)])
  have "\<exists>s'. timelineComplete i (run s0 evs) = Done s' \<and> \<not> isAnimating s' \<and> one_active s'"
    if "i < length (timelines (run s0 evs))" for i
    using complete_consistent [OF i that] consistent_one_active by blast
  with consistent_one_active [OF i] s0(1) show ?thesis by blast
qed

theorem exactly_one_active_witness:
  "(\<exists>r. initLineRevealTestimonials demo_markup = Some r
       \<and> one_active (run (state_of r) [ClickNext])
       \<and> isAnimating (run (state_of r) [ClickNext])
       \<and> timelines (run (state_of r) [ClickNext]) = [1]
       \<and> (\<exists>s'. timelineComplete 0 (run (state_of r) [ClickNext]) = Done s'
              \<and> \<not> isAnimating s' \<and> one_active s'))"
proof -
  let ?s0 = "demo\<lparr>calls := [GsapSet (Item 0) [AutoAlpha 1, PointerEvents ''auto''],
                                GsapSet (Item 1) [AutoAlpha 0, PointerEvents ''none''],
                                GsapSet (Item 2) [AutoAlpha 0, PointerEvents ''none''],
                                GsapSet (Item 3) [AutoAlpha 0, PointerEvents ''none''],
                                SplitTextCreate 0 0,
                                GsapSet (InstanceLines 0 0) [YPercent 0],
                                GsapSet (Image 0) [ClipPath ''circle(50% at 50% 50%)''],
                                SplitTextCreate 0 1,
                                GsapSet (InstanceLines 0 1) [YPercent 0],
                                GsapSet (Image 0) [ClipPath ''circle(50% at 50% 50%)''],
                                SplitTextCreate 1 0,
                                GsapSet (InstanceLines 1 0) [YPercent 110],
                                SplitTextCreate 3 0,
                                GsapSet (InstanceLines 3 0) [YPercent 110],
                                GsapSet (Image 3) [ClipPath ''circle(0% at 50% 50%)'']]\<rparr>"
  have t: "isAnimating (run ?s0 [ClickNext])" "timelines (run ?s0 [ClickNext]) = [1]"
    by (simp_all add: demo_def handler_defs)
  from exactly_one_active [OF init_demo_calls, of "[ClickNext]"]
  have one: "one_active (run ?s0 [ClickNext])"
    and all: "\<forall>i<length (timelines (run ?s0 [ClickNext])).
                \<exists>s'. timelineComplete i (run ?s0 [ClickNext]) = Done s' \<and> \<not> isAnimating s' \<and> one_active s'"
    by simp_all
  from all t(2) have "\<exists>s'. timelineComplete 0 (run ?s0 [ClickNext]) = Done s' \<and> \<not> isAnimating s' \<and> one_active s'"
    by simp
  with one t init_demo_calls show ?thesis by simp
qed

subsection \<open>An index outside the list\<close>

lemma locked_core:
  assumes "core s' = core s"
  shows "locked s' = locked s"
proof -
  from assms have f: "slides s' = slides s" "activeIndex s' = activeIndex s"
    "isAnimating s' = isAnimating s" "timelines s' = timelines s"
    by (simp_all add: core_def)
  have r: "\<And>k. in_range s' k = in_range s k" by (simp add: in_range_def f)
  show ?thesis by (simp add: locked_def r f)
qed

lemma goTo_out:
  assumes "in_range s (activeIndex s)" "\<not> isAnimating s" "\<not> in_range s t"
  shows "\<exists>s1. goTo t s = Threw TypeError s1
           \<and> core s1 = (slides s, activeIndex s, True, timelines s @ [t])"
proof -
  have ne: "t \<noteq> activeIndex s" using assms(1,3) by auto
  have a: "slide_at (slides s) (activeIndex s) = Some (slides s ! nat (activeIndex s))"
    using assms(1) by (simp add: in_range_def slide_at_in)
  have b: "slide_at (slides s) t = None"
    using assms(3) by (simp add: in_range_def slide_at_out)
  show ?thesis
    using assms(2) ne by (simp add: goTo_def a b gsap_call_def core_def Let_def)
qed

lemma locked_complete:
  assumes "locked s"
  shows "locked (step s (TimelineComplete i)) \<and> activeIndex (step s (TimelineComplete i)) = activeIndex s"
proof (cases "i < length (timelines s)")
  case False
  then show ?thesis using assms by (simp add: step_def timelineComplete_def)
next
  case True
  let ?k = "timelines s ! i"
  define v where "v = s\<lparr>timelines := take i (timelines s) @ drop (Suc i) (timelines s)\<rparr>"
  have out: "\<not> in_range s ?k"
    using assms True by (simp add: locked_def list_all_length)
  have a: "in_range v (activeIndex v)" using assms by (simp add: locked_def v_def in_range_def)
  define v1 where "v1 = v\<lparr>slides := (slides v)[nat (activeIndex v) := (slides v ! nat (activeIndex v))\<lparr>cls_active := False, aria_hidden := \<not> False\<rparr>],
             calls := calls v @ [GsapSet (Item (activeIndex v)) [AutoAlpha (if False then 1 else 0),
                                   PointerEvents (if False then ''auto'' else ''none'')]]\<rparr>"
  have s1: "setSlideState (activeIndex v) False v = Done v1"
    unfolding v1_def by (rule setSlideState_in [OF a])
  have "\<not> in_range v1 ?k" using out by (simp add: in_range_def v1_def v_def)
  then have s2: "setSlideState ?k True v1 = Threw TypeError v1" by (rule setSlideState_out)
  have "onComplete ?k v = Threw TypeError v1"
    by (simp add: onComplete_def s1 s2)
  then have st: "step s (TimelineComplete i) = v1"
    using True by (simp add: step_def timelineComplete_def v_def)
  have sub: "set (timelines v1) \<subseteq> set (timelines s)"
    using set_take_subset [of i "timelines s"] set_drop_subset [of "Suc i" "timelines s"]
    by (auto simp: v1_def v_def)
  have f: "isAnimating v1 = isAnimating s" "activeIndex v1 = activeIndex s"
    "length (slides v1) = length (slides s)"
    by (simp_all add: v1_def v_def)
  have r: "\<And>k. in_range v1 k = in_range s k" by (simp add: in_range_def f)
  have "locked v1"
    using assms sub by (auto simp: locked_def f r list_all_iff)
  with st f show ?thesis by simp
qed

lemma locked_step:
  assumes "locked s"
  shows "locked (step s e) \<and> activeIndex (step s e) = activeIndex s"
proof (cases "completion e")
  case True
  then obtain i where "e = TimelineComplete i" by (cases e) simp_all
  then show ?thesis using locked_complete [OF assms] by simp
next
  case False
  have "isAnimating s" using assms by (simp add: locked_def)
  from busy_step_core [OF this False] have c: "core (step s e) = core s" .
  from locked_core [OF c] c assms show ?thesis by (simp add: core_def)
qed

lemma locked_run:
  "locked s \<Longrightarrow> locked (run s evs) \<and> activeIndex (run s evs) = activeIndex s"
proof (induction evs arbitrary: s)
  case Nil
  then show ?case by (simp add: run_def)
next
  case (Cons e evs)
  from locked_step [OF Cons.prems] have l: "locked (step s e)" and a: "activeIndex (step s e) = activeIndex s"
    by simp_all
  from Cons.IH [OF l] a show ?case by (simp add: run_def)
qed

text \<open>
  C9. In a consistent state with no transition in progress, \<open>goTo\<close> with an index that
  is not in \<open>[0, slideCount)\<close> (so it differs from \<open>activeIndex\<close>) throws a TypeError
  after it has set \<open>isAnimating\<close>. From then on, whatever callbacks run (including the
  completion of the timeline that the failed call created, which throws again before it
  clears the flag), \<open>isAnimating\<close> stays true, \<open>activeIndex\<close> stays what it was, and every
  \<open>goTo\<close> returns at its guard without any change.
\<close>

theorem out_of_range_goTo_locks:
  assumes "consistent s" and "\<not> isAnimating s" and "\<not> in_range s t"
  shows "t \<noteq> activeIndex s
       \<and> (\<exists>s1. goTo t s = Threw TypeError s1
             \<and> isAnimating s1 \<and> activeIndex s1 = activeIndex s
             \<and> (\<forall>evs. isAnimating (run s1 evs)
                      \<and> activeIndex (run s1 evs) = activeIndex s
                      \<and> (\<forall>k. goTo k (run s1 evs) = Done (run s1 evs))))"
proof -
  have a: "in_range s (activeIndex s)" and p: "pending_ok s" using assms(1) by (simp_all add: consistent_def)
  have tl: "timelines s = []" using pending_ok_idle [OF p assms(2)] .
  from goTo_out [OF a assms(2,3)] obtain s1 where
    g: "goTo t s = Threw TypeError s1"
    and c: "core s1 = (slides s, activeIndex s, True, timelines s @ [t])" by blast
  from c have f: "slides s1 = slides s" "activeIndex s1 = activeIndex s" "isAnimating s1"
    "timelines s1 = [t]" using tl by (simp_all add: core_def)
  have l: "locked s1"
    using a assms(3) by (simp add: locked_def in_range_def f)
  have "isAnimating (run s1 evs) \<and> activeIndex (run s1 evs) = activeIndex s
          \<and> (\<forall>k. goTo k (run s1 evs) = Done (run s1 evs))" for evs
    using locked_run [OF l, of evs] by (simp add: locked_def f goTo_busy_or_same)
  moreover have "t \<noteq> activeIndex s" using a assms(3) by auto
  ultimately show ?thesis using g f by blast
qed

theorem out_of_range_goTo_locks_witness:
  "consistent demo \<and> \<not> isAnimating demo \<and> \<not> in_range demo 4 \<and> \<not> in_range demo (- 1)
   \<and> goTo 4 demo = Threw TypeError (demo\<lparr>isAnimating := True, timelines := [4], calls := [GsapTimeline 4]\<rparr>)
   \<and> isAnimating (run (state_of (goTo 4 demo)) [TimelineComplete 0, ClickNext, Elapse 4000, ClickPrev])
   \<and> activeIndex (run (state_of (goTo (- 1) demo)) [ClickNext, TimelineComplete 0, KeyDown ''ArrowLeft'' None]) = 0"
  using out_of_range_goTo_locks [of demo 4] out_of_range_goTo_locks [of demo "- 1"]
  by (simp add: consistent_def marks_ok_def pending_ok_def in_range_def demo_def upt_rec)
     (simp add: goTo_def slide_at_def gsap_call_def)

end
